theory Spec2Isabelle
  imports Main "HOL-Library.Multiset"
begin

section \<open>Python lists, errors and loops\<close>

text \<open>
  The engine is the class \<open>Life\<close> of \<open>Yoni_Ifrah_ConwaysGameOfLife.py\<close>. Its three arrays
  are Python lists subscripted by Python integers: a subscript \<open>i\<close> with
  \<open>0 \<le> i < len\<close> names slot \<open>i\<close>, a subscript with \<open>-len \<le> i < 0\<close> names slot
  \<open>len + i\<close>, and every other subscript raises \<open>IndexError\<close>. The repetition
  \<open>[v] * n\<close> that builds an array raises \<open>OverflowError\<close> or \<open>MemoryError\<close> when a list
  cannot have \<open>n\<close> entries. An exception ends the call (the file has no handler), so the
  result of a raising call is the value \<open>Inl e\<close>, with no state; the object that such a
  call leaves to a caller who catches the exception is the subject of a section of its
  own below.
\<close>

datatype error = IndexError | OverflowError | MemoryError

definition slot :: "nat \<Rightarrow> int \<Rightarrow> nat option" where
  "slot len i =
     (if 0 \<le> i \<and> i < int len then Some (nat i)
      else if - int len \<le> i \<and> i < 0 then Some (nat (int len + i))
      else None)"

definition getitem :: "'a list \<Rightarrow> int \<Rightarrow> error + 'a" where
  "getitem xs i = (case slot (length xs) i of None \<Rightarrow> Inl IndexError | Some k \<Rightarrow> Inr (xs ! k))"

definition setitem :: "'a list \<Rightarrow> int \<Rightarrow> 'a \<Rightarrow> error + 'a list" where
  "setitem xs i v =
     (case slot (length xs) i of None \<Rightarrow> Inl IndexError | Some k \<Rightarrow> Inr (xs[k := v]))"

text \<open>Sequencing of calls that may raise: the first exception ends the computation.\<close>

definition rbind :: "error + 'a \<Rightarrow> ('a \<Rightarrow> error + 'b) \<Rightarrow> error + 'b" where
  "rbind m f = (case m of Inl e \<Rightarrow> Inl e | Inr x \<Rightarrow> f x)"

text \<open>A \<open>for x in xs:\<close> loop whose body updates a state and may raise.\<close>

fun for_each :: "('a \<Rightarrow> 's \<Rightarrow> error + 's) \<Rightarrow> 'a list \<Rightarrow> 's \<Rightarrow> error + 's" where
  "for_each f [] s = Inr s"
| "for_each f (x # xs) s = (case f x s of Inl e \<Rightarrow> Inl e | Inr s' \<Rightarrow> for_each f xs s')"

text \<open>Python's \<open>range(n)\<close>: empty for \<open>n \<le> 0\<close>.\<close>

definition range_py :: "int \<Rightarrow> int list" where
  "range_py n = map int [0..<nat n]"

section \<open>The module function \<open>product\<close>\<close>

text \<open>
  \<open>product(*args, repeat)\<close> is called once, as \<open>product((-1, 0, 1), repeat=2)\<close>, so
  the model takes the single pool. \<open>[x+[y] for x in result for y in pool]\<close> is the
  concatenation below; a yielded tuple is the list of its components.
\<close>

definition product :: "int list \<Rightarrow> nat \<Rightarrow> int list list" where
  "product pool repeat =
     fold (\<lambda>pool result. concat (map (\<lambda>x. map (\<lambda>y. x @ [y]) pool) result))
          (replicate repeat pool) [[]]"

section \<open>The class \<open>Life\<close>\<close>

record life =
  width :: int
  height :: int
  live :: "bool list"
  in_bounds :: "bool list"
  neighbours :: "int list"
  neighbourhood :: "int list"
  needs_update :: "int set"

text \<open>
  \<open>self.in_bounds[i] = self.in_bounds[-i] = False\<close> assigns its targets from left to
  right.
\<close>

definition clear_rows :: "int \<Rightarrow> bool list \<Rightarrow> error + bool list" where
  "clear_rows i inb = rbind (setitem inb i False) (\<lambda>inb'. setitem inb' (- i) False)"

definition clear_columns :: "int \<Rightarrow> int \<Rightarrow> bool list \<Rightarrow> error + bool list" where
  "clear_columns w j inb =
     (let k = (j + 1) * (w + 2)
      in rbind (setitem inb (k - 1) False) (\<lambda>inb'. setitem inb' k False))"

definition offsets :: "int \<Rightarrow> int list" where
  "offsets w =
     concat (map (\<lambda>t. case t of [x, y] \<Rightarrow> if x \<noteq> 0 \<or> y \<noteq> 0 then [y * (w + 2) + x] else []
                              | _ \<Rightarrow> [])
                 (product [-1, 0, 1] 2))"

text \<open>
  \<open>Life.__init__\<close> where the three arrays can be built: \<open>[v] * cells\<close> is then the list
  of \<open>cells\<close> entries \<open>v\<close>, the empty list when \<open>cells \<le> 0\<close>.
\<close>

definition Life :: "int \<Rightarrow> int \<Rightarrow> error + life" where
  "Life w h =
     (let cells = (w + 2) * (h + 2)
      in rbind (for_each clear_rows (range_py (w + 2)) (replicate (nat cells) True)) (\<lambda>inb1.
         rbind (for_each (clear_columns w) (range_py h) inb1) (\<lambda>inb2.
         Inr \<lparr>width = w, height = h,
              live = replicate (nat cells) False,
              in_bounds = inb2,
              neighbours = replicate (nat cells) 0,
              neighbourhood = offsets w,
              needs_update = {}\<rparr>)))"

text \<open>
  \<open>[v] * n\<close> with the limits of the interpreter: \<open>maxsize\<close> is \<open>sys.maxsize\<close>, and
  \<open>fits n\<close> says that a list of \<open>n\<close> entries can be allocated. A count outside
  \<open>[-maxsize - 1, maxsize]\<close> raises \<open>OverflowError\<close>, another count \<open>n \<le> 0\<close> gives the
  empty list, and a positive count that cannot be allocated raises \<open>MemoryError\<close>.
\<close>

definition list_times :: "int \<Rightarrow> (int \<Rightarrow> bool) \<Rightarrow> 'a \<Rightarrow> int \<Rightarrow> error + 'a list" where
  "list_times maxsize fits v n =
     (if n < - maxsize - 1 \<or> maxsize < n then Inl OverflowError
      else if n \<le> 0 then Inr []
      else if fits n then Inr (replicate (nat n) v)
      else Inl MemoryError)"

text \<open>
  \<open>Life.__init__\<close> with these limits: the three arrays are built first, in the order
  \<open>live\<close>, \<open>in_bounds\<close>, \<open>neighbours\<close>, then the two loops run.
\<close>

definition Life_init :: "int \<Rightarrow> (int \<Rightarrow> bool) \<Rightarrow> int \<Rightarrow> int \<Rightarrow> error + life" where
  "Life_init maxsize fits w h =
     (let cells = (w + 2) * (h + 2)
      in rbind (list_times maxsize fits False cells) (\<lambda>lv.
         rbind (list_times maxsize fits True cells) (\<lambda>inb.
         rbind (list_times maxsize fits 0 cells) (\<lambda>nb.
         rbind (for_each clear_rows (range_py (w + 2)) inb) (\<lambda>inb1.
         rbind (for_each (clear_columns w) (range_py h) inb1) (\<lambda>inb2.
         Inr \<lparr>width = w, height = h,
              live = lv,
              in_bounds = inb2,
              neighbours = nb,
              neighbourhood = offsets w,
              needs_update = {}\<rparr>))))))"

text \<open>\<open>Life.cell\<close>.\<close>

definition cell :: "life \<Rightarrow> int \<Rightarrow> int \<Rightarrow> int" where
  "cell g x y = (width g + 2) * (y + 1) + x + 1"

text \<open>
  The body of the loop of \<open>Life.set\<close>: \<open>n += p\<close>, then the guarded
  \<open>self.neighbours[n] += adjust\<close> and \<open>self.needs_update.add(n)\<close>.
\<close>

definition touch :: "int \<Rightarrow> int \<Rightarrow> int \<Rightarrow> life \<Rightarrow> error + life" where
  "touch p adjust n0 g =
     (let n = n0 + p
      in rbind (getitem (in_bounds g) n) (\<lambda>b.
           if b then
             rbind (getitem (neighbours g) n) (\<lambda>c.
             rbind (setitem (neighbours g) n (c + adjust)) (\<lambda>nb.
             Inr (g\<lparr>neighbours := nb, needs_update := insert n (needs_update g)\<rparr>)))
           else Inr g))"

text \<open>
  \<open>Life.set\<close>. The guard \<open>value != self.live[p] and self.in_bounds[p]\<close> reads
  \<open>live[p]\<close> first and \<open>in_bounds[p]\<close> only when the values differ.
\<close>

definition set_cell :: "int \<Rightarrow> bool \<Rightarrow> life \<Rightarrow> error + life" where
  "set_cell p v g =
     rbind (getitem (live g) p) (\<lambda>lp.
       if v \<noteq> lp then
         rbind (getitem (in_bounds g) p) (\<lambda>bp.
           if bp then
             rbind (setitem (live g) p v) (\<lambda>lv.
               for_each (touch p (if v then 1 else - 1)) (neighbourhood g)
                 (g\<lparr>live := lv, needs_update := insert p (needs_update g)\<rparr>))
           else Inr g)
       else Inr g)"

text \<open>
  \<open>Life.update\<close>. A Python set is iterated in an order the language does not fix, so
  the order is an argument: \<open>update_gen ord g\<close> is one generation (the body of
  \<open>for _ in range(steps)\<close>) in which the comprehension visits \<open>needs_update\<close> in the
  order \<open>ord\<close>, and \<open>iterates ord S\<close> says that \<open>ord\<close> is an iteration order of \<open>S\<close>.
\<close>

definition iterates :: "int list \<Rightarrow> int set \<Rightarrow> bool" where
  "iterates ord S \<longleftrightarrow> distinct ord \<and> set ord = S"

fun snapshot :: "life \<Rightarrow> int list \<Rightarrow> error + (int \<times> bool \<times> int) list" where
  "snapshot g [] = Inr []"
| "snapshot g (p # ps) =
     rbind (getitem (live g) p) (\<lambda>l.
     rbind (getitem (neighbours g) p) (\<lambda>c.
     rbind (snapshot g ps) (\<lambda>u. Inr ((p, l, c) # u))))"

fun life_rule :: "int \<times> bool \<times> int \<Rightarrow> life \<Rightarrow> error + life" where
  "life_rule (p, l, c) g =
     (if l \<and> \<not> (2 \<le> c \<and> c \<le> 3) then set_cell p False g
      else if \<not> l \<and> c = 3 then set_cell p True g
      else Inr g)"

definition update_gen :: "int list \<Rightarrow> life \<Rightarrow> error + life" where
  "update_gen ord g =
     rbind (snapshot g ord) (\<lambda>u. for_each life_rule u (g\<lparr>needs_update := {}\<rparr>))"

text \<open>
  \<open>update(steps)\<close> runs \<open>steps\<close> generations; the list holds the iteration order of each
  generation, and its length is \<open>steps\<close>.
\<close>

definition update :: "int list list \<Rightarrow> life \<Rightarrow> error + life" where
  "update ords g = for_each update_gen ords g"

text \<open>
  \<open>Life.paste\<close>. A pattern is a \<open>string\<close>, so a character is one of the 256
  code points below \<open>0x100\<close>; among them \<open>str.strip()\<close> removes the characters
  for which \<open>str.isspace\<close> holds, and \<open>str.splitlines()\<close> breaks at the line
  boundaries \<open>\n \r \r\n \v \f \x1c \x1d \x1e \x85\<close>, with no empty last line.
\<close>

definition isspace :: "char \<Rightarrow> bool" where
  "isspace c \<longleftrightarrow> (of_char c :: nat) \<in> {9, 10, 11, 12, 13, 28, 29, 30, 31, 32, 133, 160}"

definition strip :: "string \<Rightarrow> string" where
  "strip s = rev (dropWhile isspace (rev (dropWhile isspace s)))"

definition linebreak :: "char \<Rightarrow> bool" where
  "linebreak c \<longleftrightarrow> (of_char c :: nat) \<in> {10, 11, 12, 13, 28, 29, 30, 133}"

fun lines_from :: "string \<Rightarrow> string \<Rightarrow> string list" where
  "lines_from cur [] = (if cur = [] then [] else [rev cur])"
| "lines_from cur [c] = (if linebreak c then [rev cur] else [rev (c # cur)])"
| "lines_from cur (c # d # cs) =
     (if c = CHR 0x0D \<and> d = CHR 0x0A then rev cur # lines_from [] cs
      else if linebreak c then rev cur # lines_from [] (d # cs)
      else lines_from (c # cur) (d # cs))"

definition splitlines :: "string \<Rightarrow> string list" where
  "splitlines s = lines_from [] s"

definition paste :: "string \<Rightarrow> int \<Rightarrow> int \<Rightarrow> life \<Rightarrow> error + life" where
  "paste s x y g =
     for_each (\<lambda>(j, line).
         for_each (\<lambda>(i, char) g. set_cell (cell g (x + int i) (y + int j)) (char = CHR ''o'') g)
                  (enumerate 0 (strip line)))
       (enumerate 0 (splitlines (strip s))) g"

section \<open>The object after an exception\<close>

text \<open>
  A method changes \<open>self\<close> in place: when a statement raises, the statements executed
  before it have taken effect, and a caller that catches the exception holds the object
  as they left it. \<open>set_obj p v g\<close> is \<open>Life.set\<close> as such a change: the object after
  the call, and the exception when the call raised. Its loop is \<open>for_each_obj\<close>, which
  stops at the first exception and keeps the state reached; \<open>touch_obj\<close> is the body of
  the loop.
\<close>

fun for_each_obj :: "('a \<Rightarrow> 's \<Rightarrow> 's \<times> error option) \<Rightarrow> 'a list \<Rightarrow> 's \<Rightarrow> 's \<times> error option" where
  "for_each_obj f [] s = (s, None)"
| "for_each_obj f (x # xs) s =
     (case f x s of (s', Some e) \<Rightarrow> (s', Some e) | (s', None) \<Rightarrow> for_each_obj f xs s')"

definition touch_obj :: "int \<Rightarrow> int \<Rightarrow> int \<Rightarrow> life \<Rightarrow> life \<times> error option" where
  "touch_obj p adjust n0 g =
     (let n = n0 + p
      in case getitem (in_bounds g) n of
           Inl e \<Rightarrow> (g, Some e)
         | Inr b \<Rightarrow>
             if b then
               (case getitem (neighbours g) n of
                  Inl e \<Rightarrow> (g, Some e)
                | Inr c \<Rightarrow>
                    (case setitem (neighbours g) n (c + adjust) of
                       Inl e \<Rightarrow> (g, Some e)
                     | Inr nb \<Rightarrow>
                         (g\<lparr>neighbours := nb, needs_update := insert n (needs_update g)\<rparr>, None)))
             else (g, None))"

definition set_obj :: "int \<Rightarrow> bool \<Rightarrow> life \<Rightarrow> life \<times> error option" where
  "set_obj p v g =
     (case getitem (live g) p of
        Inl e \<Rightarrow> (g, Some e)
      | Inr lp \<Rightarrow>
          if v \<noteq> lp then
            (case getitem (in_bounds g) p of
               Inl e \<Rightarrow> (g, Some e)
             | Inr bp \<Rightarrow>
                 if bp then
                   (case setitem (live g) p v of
                      Inl e \<Rightarrow> (g, Some e)
                    | Inr lv \<Rightarrow>
                        for_each_obj (touch_obj p (if v then 1 else - 1)) (neighbourhood g)
                          (g\<lparr>live := lv, needs_update := insert p (needs_update g)\<rparr>))
                 else (g, None))
          else (g, None))"

section \<open>Notions of the specification\<close>

text \<open>
  A sequence of \<open>set\<close> calls, and the states that the public operations \<open>set\<close>,
  \<open>update\<close> and \<open>paste\<close> reach from \<open>Life(w, h)\<close> through calls that return. A
  generation of \<open>update\<close> may iterate the dirty set in any order.
\<close>

definition set_calls :: "(int \<times> bool) list \<Rightarrow> life \<Rightarrow> error + life" where
  "set_calls cs g = for_each (\<lambda>(p, v). set_cell p v) cs g"

text \<open>
  A sequence of \<open>set\<close> calls made by a caller who catches the exceptions and goes on: the
  object after them.
\<close>

definition set_attempts :: "(int \<times> bool) list \<Rightarrow> life \<Rightarrow> life" where
  "set_attempts cs g = fold (\<lambda>(p, v) g. fst (set_obj p v g)) cs g"

inductive reachable :: "int \<Rightarrow> int \<Rightarrow> life \<Rightarrow> bool" for w h where
  constructed: "Life w h = Inr g \<Longrightarrow> reachable w h g"
| by_set: "reachable w h g \<Longrightarrow> set_cell p v g = Inr g' \<Longrightarrow> reachable w h g'"
| by_update: "reachable w h g \<Longrightarrow> iterates ord (needs_update g) \<Longrightarrow> update_gen ord g = Inr g'
     \<Longrightarrow> reachable w h g'"
| by_paste: "reachable w h g \<Longrightarrow> paste s x y g = Inr g' \<Longrightarrow> reachable w h g'"

text \<open>
  \<open>follows ords g\<close>: in \<open>update ords g\<close> every generation iterates the dirty set of the
  state it starts from, in the order the list gives for it.
\<close>

fun follows :: "int list list \<Rightarrow> life \<Rightarrow> bool" where
  "follows [] g = True"
| "follows (ord # ords) g =
     (iterates ord (needs_update g) \<and>
      (case update_gen ord g of Inl e \<Rightarrow> True | Inr g' \<Rightarrow> follows ords g'))"

text \<open>
  The padded board of a \<open>w\<close> by \<open>h\<close> grid has \<open>cells w h\<close> storage slots; slot \<open>k\<close> is
  in padded row \<open>k div (w + 2)\<close> and padded column \<open>k mod (w + 2)\<close>. The interior slots
  are the cells of the logical grid, the border ring is the rest.
\<close>

definition cells :: "int \<Rightarrow> int \<Rightarrow> int" where
  "cells w h = (w + 2) * (h + 2)"

definition interior :: "int \<Rightarrow> int \<Rightarrow> int \<Rightarrow> bool" where
  "interior w h k \<longleftrightarrow>
     1 \<le> k div (w + 2) \<and> k div (w + 2) \<le> h \<and> 1 \<le> k mod (w + 2) \<and> k mod (w + 2) \<le> w"

definition border_ring :: "int \<Rightarrow> int \<Rightarrow> int \<Rightarrow> bool" where
  "border_ring w h b \<longleftrightarrow>
     0 \<le> b \<and> b < cells w h \<and>
     (b div (w + 2) = 0 \<or> b div (w + 2) = h + 1 \<or> b mod (w + 2) = 0 \<or> b mod (w + 2) = w + 1)"

text \<open>
  The slots that surround slot \<open>i\<close> in the padded grid of \<open>h + 2\<close> rows and \<open>w + 2\<close>
  columns: the slots at most one row and one column away from \<open>i\<close>, without \<open>i\<close>
  itself. They are eight when \<open>i\<close> is not on the rim of the padded grid.
  \<open>live_around g i\<close> is the number of them that are in bounds and live.
\<close>

definition surrounding :: "int \<Rightarrow> int \<Rightarrow> int \<Rightarrow> int list" where
  "surrounding w h i =
     [(i div (w + 2) + dy) * (w + 2) + (i mod (w + 2) + dx).
        dy \<leftarrow> [- 1, 0, 1], dx \<leftarrow> [- 1, 0, 1], (dx, dy) \<noteq> (0, 0),
        0 \<le> i div (w + 2) + dy \<and> i div (w + 2) + dy < h + 2 \<and>
        0 \<le> i mod (w + 2) + dx \<and> i mod (w + 2) + dx < w + 2]"

definition live_around :: "life \<Rightarrow> int \<Rightarrow> nat" where
  "live_around g i =
     length (filter (\<lambda>n. in_bounds g ! nat n \<and> live g ! nat n)
                    (surrounding (width g) (height g) i))"

text \<open>
  The subscripts the body of \<open>set(p, v)\<close> can evaluate: \<open>p\<close> itself (in \<open>live[p]\<close> and
  \<open>in_bounds[p]\<close>) and \<open>n + p\<close> for \<open>n\<close> in \<open>neighbourhood\<close> (in \<open>in_bounds[n]\<close> and
  \<open>neighbours[n]\<close>).
\<close>

definition subscripts :: "int \<Rightarrow> life \<Rightarrow> int list" where
  "subscripts p g = p # map (\<lambda>n. n + p) (neighbourhood g)"

text \<open>
  The calls of \<open>paste(s, x, y)\<close> in order: for each character its target coordinate and
  whether it is the character \<open>o\<close>; \<open>set_target\<close> is the call made for one of them. A
  target is in the grid, or near it when it lies in the grid or the border ring and is
  neither \<open>(w, h - 1)\<close> nor \<open>(-1, h)\<close>.
\<close>

definition paste_targets :: "string \<Rightarrow> int \<Rightarrow> int \<Rightarrow> (int \<times> int \<times> bool) list" where
  "paste_targets s x y =
     concat (map (\<lambda>(j, line). map (\<lambda>(i, char). (x + int i, y + int j, char = CHR ''o''))
                                     (enumerate 0 (strip line)))
                 (enumerate 0 (splitlines (strip s))))"

definition set_target :: "int \<times> int \<times> bool \<Rightarrow> life \<Rightarrow> error + life" where
  "set_target t g = (case t of (a, b, v) \<Rightarrow> set_cell (cell g a b) v g)"

definition in_grid :: "int \<Rightarrow> int \<Rightarrow> int \<times> int \<times> bool \<Rightarrow> bool" where
  "in_grid w h t = (case t of (a, b, v) \<Rightarrow> 0 \<le> a \<and> a < w \<and> 0 \<le> b \<and> b < h)"

definition near_grid :: "int \<Rightarrow> int \<Rightarrow> int \<times> int \<times> bool \<Rightarrow> bool" where
  "near_grid w h t =
     (case t of (a, b, v) \<Rightarrow>
        - 1 \<le> a \<and> a \<le> w \<and> - 1 \<le> b \<and> b \<le> h \<and> (a, b) \<noteq> (w, h - 1) \<and> (a, b) \<noteq> (- 1, h))"

text \<open>
  The blinker of the specification: \<open>Life(20, 20)\<close>, then the cells \<open>(5, 5)\<close>, \<open>(6, 5)\<close>,
  \<open>(7, 5)\<close> set alive.
\<close>

definition blinker_board :: "error + life" where
  "blinker_board =
     rbind (Life 20 20)
       (\<lambda>g. set_calls [(cell g 5 5, True), (cell g 6 5, True), (cell g 7 5, True)] g)"

text \<open>
  Boards of 1 by 1, of 2 by 2 and of 3 by 3 cells, with the \<open>in_bounds\<close> and
  \<open>neighbourhood\<close> that \<open>Life(1, 1)\<close>, \<open>Life(2, 2)\<close> and \<open>Life(3, 3)\<close> compute, for
  the examples.
\<close>

definition board_1x1 :: "bool list \<Rightarrow> int list \<Rightarrow> int set \<Rightarrow> life" where
  "board_1x1 lv nb dirty =
     \<lparr>width = 1, height = 1, live = lv,
      in_bounds = [False, False, False,
                   False, True, True,
                   True, False, False],
      neighbours = nb, neighbourhood = [- 4, - 1, 2, - 3, 3, - 2, 1, 4], needs_update = dirty\<rparr>"

definition board_2x2 :: "bool list \<Rightarrow> int list \<Rightarrow> int set \<Rightarrow> life" where
  "board_2x2 lv nb dirty =
     \<lparr>width = 2, height = 2, live = lv,
      in_bounds = [False, False, False, False,
                   False, True, True, False,
                   False, True, True, True,
                   True, False, False, False],
      neighbours = nb, neighbourhood = [- 5, - 1, 3, - 4, 4, - 3, 1, 5], needs_update = dirty\<rparr>"

definition board_3x3 :: "bool list \<Rightarrow> int list \<Rightarrow> int set \<Rightarrow> life" where
  "board_3x3 lv nb dirty =
     \<lparr>width = 3, height = 3, live = lv,
      in_bounds = [False, False, False, False, False,
                   False, True, True, True, False,
                   False, True, True, True, False,
                   False, True, True, True, True,
                   True, False, False, False, False],
      neighbours = nb, neighbourhood = [- 6, - 1, 4, - 5, 5, - 4, 1, 6], needs_update = dirty\<rparr>"

section \<open>Notions of the proofs\<close>

text \<open>
  \<open>valid m i\<close>: the subscript \<open>i\<close> does not raise on a list of \<open>m\<close> entries; \<open>sl m i\<close> is
  the slot it names then.
\<close>

definition valid :: "nat \<Rightarrow> int \<Rightarrow> bool" where
  "valid m i \<longleftrightarrow> - int m \<le> i \<and> i < int m"

definition sl :: "nat \<Rightarrow> int \<Rightarrow> nat" where
  "sl m i = (if 0 \<le> i then nat i else nat (int m + i))"

text \<open>
  The count that the loop of \<open>set\<close> maintains at slot \<open>i\<close>: the number of live in-bounds
  slots among the subscripts \<open>i + d\<close>, \<open>d\<close> in \<open>neighbourhood\<close>, that lie in the arrays.
  At an interior slot these subscripts are the surrounding slots.
\<close>

definition live_neighbours :: "life \<Rightarrow> int \<Rightarrow> nat" where
  "live_neighbours g i =
     length (filter (\<lambda>d. 0 \<le> i + d \<and> i + d < int (length (in_bounds g)) \<and>
                          in_bounds g ! nat (i + d) \<and> live g ! nat (i + d))
                    (neighbourhood g))"

text \<open>
  What \<open>__init__\<close> leaves in \<open>in_bounds[k]\<close> for \<open>w, h > 0\<close>: the first loop clears the
  slots below \<open>w + 2\<close> and above \<open>(w + 2) * (h + 1)\<close>, the second the slots
  \<open>(j + 1) * (w + 2) - 1\<close> and \<open>(j + 1) * (w + 2)\<close> for \<open>j < h\<close>.
\<close>

definition masked :: "int \<Rightarrow> int \<Rightarrow> int \<Rightarrow> bool" where
  "masked w h k \<longleftrightarrow>
     w + 2 \<le> k \<and> k \<le> (w + 2) * (h + 1) \<and>
     (\<forall>j\<in>{0..<h}. k \<noteq> (j + 1) * (w + 2) - 1 \<and> k \<noteq> (j + 1) * (w + 2))"

text \<open>
  The part of the state that no operation changes, and the invariant that the calls
  which return keep: the dirty set holds subscripts of in-bounds slots, and the count of
  every in-bounds slot \<open>k\<close> is \<open>live_neighbours g k\<close>.
\<close>

definition shape :: "int \<Rightarrow> int \<Rightarrow> life \<Rightarrow> bool" where
  "shape w h g \<longleftrightarrow>
     width g = w \<and> height g = h \<and> neighbourhood g = offsets w \<and>
     length (live g) = nat (cells w h) \<and> length (neighbours g) = nat (cells w h) \<and>
     in_bounds g = map (\<lambda>k. masked w h (int k)) [0..<nat (cells w h)]"

definition consistent :: "int \<Rightarrow> int \<Rightarrow> life \<Rightarrow> bool" where
  "consistent w h g \<longleftrightarrow>
     width g = w \<and> height g = h \<and> neighbourhood g = offsets w \<and>
     length (live g) = nat (cells w h) \<and> length (neighbours g) = nat (cells w h) \<and>
     in_bounds g = map (\<lambda>k. masked w h (int k)) [0..<nat (cells w h)] \<and>
     (\<forall>p\<in>needs_update g. valid (nat (cells w h)) p \<and> masked w h (int (sl (nat (cells w h)) p))) \<and>
     (\<forall>k. masked w h k \<longrightarrow> neighbours g ! nat k = int (live_neighbours g k))"

text \<open>
  The loop of \<open>set\<close> in closed form: whether the step for the offset \<open>d\<close> returns, the
  subscripts that pass the \<open>in_bounds\<close> test, and the counts after adding \<open>a\<close> at each of
  a list of slots.
\<close>

definition touch_ok :: "bool list \<Rightarrow> nat \<Rightarrow> int \<Rightarrow> int \<Rightarrow> bool" where
  "touch_ok inb m p d \<longleftrightarrow>
     valid (length inb) (d + p) \<and> (inb ! sl (length inb) (d + p) \<longrightarrow> valid m (d + p))"

definition touched :: "bool list \<Rightarrow> int \<Rightarrow> int list \<Rightarrow> int list" where
  "touched inb p ds = filter (\<lambda>n. inb ! sl (length inb) n) (map (\<lambda>d. d + p) ds)"

definition bump :: "int \<Rightarrow> nat list \<Rightarrow> int list \<Rightarrow> int list" where
  "bump a ks nb = fold (\<lambda>k nb. nb[k := nb ! k + a]) ks nb"

text \<open>
  \<open>set(p, v)\<close> in closed form: whether it raises, whether it passes its guard, and the
  state it then produces.
\<close>

definition set_raises :: "life \<Rightarrow> int \<Rightarrow> bool \<Rightarrow> bool" where
  "set_raises g p v \<longleftrightarrow>
     \<not> valid (length (live g)) p \<or>
     v \<noteq> live g ! sl (length (live g)) p \<and>
       (\<not> valid (length (in_bounds g)) p \<or>
        in_bounds g ! sl (length (in_bounds g)) p \<and>
          (\<exists>d\<in>set (neighbourhood g). \<not> touch_ok (in_bounds g) (length (neighbours g)) p d))"

definition set_acts :: "life \<Rightarrow> int \<Rightarrow> bool \<Rightarrow> bool" where
  "set_acts g p v \<longleftrightarrow>
     v \<noteq> live g ! sl (length (live g)) p \<and> in_bounds g ! sl (length (in_bounds g)) p"

definition set_effect :: "life \<Rightarrow> int \<Rightarrow> bool \<Rightarrow> life" where
  "set_effect g p v =
     g\<lparr>live := (live g)[sl (length (live g)) p := v],
       neighbours := bump (if v then 1 else - 1)
           (map (sl (length (neighbours g))) (touched (in_bounds g) p (neighbourhood g)))
           (neighbours g),
       needs_update := insert p (needs_update g) \<union>
           set (touched (in_bounds g) p (neighbourhood g))\<rparr>"

text \<open>
  An interior slot whose eight neighbours are interior too.
\<close>

definition inner :: "int \<Rightarrow> int \<Rightarrow> int \<Rightarrow> bool" where
  "inner w h p \<longleftrightarrow>
     2 \<le> p div (w + 2) \<and> p div (w + 2) \<le> h - 1 \<and> 2 \<le> p mod (w + 2) \<and> p mod (w + 2) \<le> w - 1"

section \<open>Basic facts\<close>

text \<open>
  Sequencing, and subscripting in terms of \<open>valid\<close> and \<open>sl\<close>.
\<close>

lemma rbind_Inl [simp]: "rbind (Inl e) f = Inl e"
  by (simp add: rbind_def)

lemma rbind_Inr [simp]: "rbind (Inr x) f = f x"
  by (simp add: rbind_def)

lemma rbind_Inr_right [simp]: "rbind m Inr = m"
  by (cases m) simp_all

lemma rbind_eq_Inr: "rbind m f = Inr y \<longleftrightarrow> (\<exists>x. m = Inr x \<and> f x = Inr y)"
  by (cases m) simp_all

lemma slot_eq: "slot m i = (if valid m i then Some (sl m i) else None)"
  by (auto simp: slot_def valid_def sl_def)

lemma sl_less: "valid m i \<Longrightarrow> sl m i < m"
  by (auto simp: valid_def sl_def)

lemma inj_on_slot:
  assumes "\<And>p. p \<in> S \<Longrightarrow> 0 \<le> p \<and> p < int n"
  shows "inj_on (slot n) S"
proof (rule inj_onI)
  fix x y assume "x \<in> S" "y \<in> S" and e: "slot n x = slot n y"
  then have "0 \<le> x \<and> x < int n" "0 \<le> y \<and> y < int n" using assms by blast+
  with e show "x = y" by (auto simp: slot_def)
qed

lemma getitem_eq:
  "getitem xs i = (if valid (length xs) i then Inr (xs ! sl (length xs) i) else Inl IndexError)"
  by (simp add: getitem_def slot_eq)

lemma setitem_eq:
  "setitem xs i v =
     (if valid (length xs) i then Inr (xs[sl (length xs) i := v]) else Inl IndexError)"
  by (simp add: setitem_def slot_eq)

lemma offsets_eq:
  "offsets w = [- (w + 2) - 1, - 1, (w + 2) - 1, - (w + 2), w + 2, - (w + 2) + 1, 1, (w + 2) + 1]"
  by (simp add: offsets_def product_def eval_nat_numeral)

lemma count_list_filter_conv: "count_list xs y = length (filter (\<lambda>x. x = y) xs)"
  by (induction xs) simp_all

section \<open>Loops\<close>

text \<open>
  Facts about \<open>for_each\<close>: splitting a loop, carrying an invariant through it, skipping steps
  that change nothing, and reordering steps that commute.
\<close>

lemma for_each_append:
  "for_each f (xs @ ys) s = rbind (for_each f xs s) (for_each f ys)"
  by (induction xs arbitrary: s) (simp_all split: sum.splits)

lemma for_each_concat:
  "for_each f (concat xss) s = for_each (\<lambda>xs. for_each f xs) xss s"
proof (induction xss arbitrary: s)
  case Nil
  then show ?case by simp
next
  case (Cons xs xss)
  then show ?case
    by (cases "for_each f xs s") (simp_all add: for_each_append)
qed

lemma for_each_map:
  "for_each f (map k xs) s = for_each (\<lambda>x. f (k x)) xs s"
  by (induction xs arbitrary: s) (simp_all split: sum.splits)

lemma for_each_invariant:
  assumes "\<And>x s s'. x \<in> set xs \<Longrightarrow> I s \<Longrightarrow> f x s = Inr s' \<Longrightarrow> I s'"
    and "I s" and "for_each f xs s = Inr s'"
  shows "I s'"
  using assms
proof (induction xs arbitrary: s)
  case Nil
  then show ?case by simp
next
  case (Cons x xs)
  from Cons.prems(3) obtain s1 where s1: "f x s = Inr s1" and rest: "for_each f xs s1 = Inr s'"
    by (auto split: sum.splits)
  have "I s1" using Cons.prems(1) [of x s s1] Cons.prems(2) s1 by simp
  moreover have "\<And>y t t'. y \<in> set xs \<Longrightarrow> I t \<Longrightarrow> f y t = Inr t' \<Longrightarrow> I t'"
    using Cons.prems(1) by (meson list.set_intros(2))
  ultimately show ?case using Cons.IH rest by blast
qed

lemma for_each_noop:
  "(\<And>x. x \<in> set xs \<Longrightarrow> f x s = Inr s) \<Longrightarrow> for_each f xs s = Inr s"
  by (induction xs) simp_all

lemma for_each_one_acts:
  assumes "distinct xs" and "q \<in> set xs"
    and "\<And>x s. x \<in> set xs \<Longrightarrow> x \<noteq> q \<Longrightarrow> f x s = Inr s"
  shows "for_each f xs s = f q s"
  using assms
proof (induction xs arbitrary: s)
  case Nil
  then show ?case by simp
next
  case (Cons x xs)
  show ?case
  proof (cases "x = q")
    case True
    then have "q \<notin> set xs" using Cons.prems(1) by simp
    then have "for_each f xs t = Inr t" for t
      using Cons.prems(3) by (intro for_each_noop) auto
    with True show ?thesis by (simp split: sum.splits)
  next
    case False
    then have "f x s = Inr s" using Cons.prems(3) by simp
    moreover have "for_each f xs s = f q s"
      using Cons.IH [of s] Cons.prems False by auto
    ultimately show ?thesis by simp
  qed
qed

lemma for_each_error:
  assumes "\<And>x s e. f x s = Inl e \<Longrightarrow> e = c"
  shows "for_each f xs s = Inl e \<Longrightarrow> e = c"
  using assms by (induction xs arbitrary: s) (auto split: sum.splits)

text \<open>
  The result of a loop is what its run on the object shows: the state reached when no
  step raised, the exception of the first step that raised otherwise.
\<close>

lemma for_each_of_obj:
  assumes "\<And>x s. f x s = (case fo x s of (s', None) \<Rightarrow> Inr s' | (s', Some e) \<Rightarrow> Inl e)"
  shows "for_each f xs s =
     (case for_each_obj fo xs s of (s', None) \<Rightarrow> Inr s' | (s', Some e) \<Rightarrow> Inl e)"
  by (induction xs arbitrary: s) (auto simp: assms split: prod.splits option.splits)

lemma for_each_returns:
  assumes step: "\<And>x s. I s \<Longrightarrow> x \<in> set xs \<Longrightarrow> \<exists>s'. f x s = Inr s' \<and> I s'"
    and "I s"
  shows "\<exists>s'. for_each f xs s = Inr s' \<and> I s'"
  using assms
proof (induction xs arbitrary: s)
  case Nil
  then show ?case by simp
next
  case (Cons x xs)
  from Cons.prems obtain t where t: "f x s = Inr t" "I t" by (meson list.set_intros(1))
  have "\<exists>s'. for_each f xs t = Inr s' \<and> I s'"
    using Cons.IH [of t] Cons.prems(1) t(2) by (meson list.set_intros(2))
  with t show ?case by simp
qed

lemma for_each_filter_noop:
  assumes noop: "\<And>x s. I s \<Longrightarrow> x \<in> set xs \<Longrightarrow> \<not> P x \<Longrightarrow> f x s = Inr s"
    and inv: "\<And>x s s'. I s \<Longrightarrow> x \<in> set xs \<Longrightarrow> f x s = Inr s' \<Longrightarrow> I s'"
    and "I s"
  shows "for_each f xs s = for_each f (filter P xs) s"
  using assms
proof (induction xs arbitrary: s)
  case Nil
  then show ?case by simp
next
  case (Cons x xs)
  have IH: "for_each f xs t = for_each f (filter P xs) t" if "I t" for t
    using Cons.IH [of t] Cons.prems(1,2) that by (meson list.set_intros(2))
  show ?case
  proof (cases "P x")
    case False
    then have "f x s = Inr s" using Cons.prems by simp
    with False IH [OF Cons.prems(3)] show ?thesis by simp
  next
    case True
    show ?thesis
    proof (cases "f x s")
      case (Inl e)
      with True show ?thesis by simp
    next
      case (Inr t)
      then have "I t" using Cons.prems(2) [of s x t] Cons.prems(3) by simp
      with True Inr IH show ?thesis by simp
    qed
  qed
qed

lemma for_each_fold:
  assumes inv: "\<And>x s s'. I s \<Longrightarrow> f x s = Inr s' \<Longrightarrow> I s'" and "I s"
  shows "for_each f xs s =
         fold (\<lambda>x r. case r of Inl e \<Rightarrow> Inl e | Inr t \<Rightarrow> if I t then f x t else Inr t) xs (Inr s)"
  using \<open>I s\<close>
proof (induction xs arbitrary: s)
  case Nil
  then show ?case by simp
next
  case (Cons x xs)
  let ?F = "\<lambda>x r. case r of Inl e \<Rightarrow> Inl e | Inr t \<Rightarrow> if I t then f x t else Inr t"
  have stuck: "fold ?F ys (Inl e) = Inl e" for ys e
    by (induction ys) simp_all
  show ?case
  proof (cases "f x s")
    case (Inl e)
    with Cons.prems stuck show ?thesis by simp
  next
    case (Inr s1)
    with Cons.prems inv have "I s1" by blast
    with Cons.IH [of s1] Inr Cons.prems show ?thesis by simp
  qed
qed

lemma for_each_permuted:
  assumes inv: "\<And>x s s'. I s \<Longrightarrow> f x s = Inr s' \<Longrightarrow> I s'"
    and comm: "\<And>x y s. x \<in> set xs \<Longrightarrow> y \<in> set xs \<Longrightarrow> x \<noteq> y \<Longrightarrow> I s \<Longrightarrow>
                 rbind (f x s) (f y) = rbind (f y s) (f x)"
    and perm: "mset xs = mset ys" and "I s"
  shows "for_each f xs s = for_each f ys s"
proof -
  let ?F = "\<lambda>x r. case r of Inl e \<Rightarrow> Inl e | Inr t \<Rightarrow> if I t then f x t else Inr t"
  have step: "?F x (?F y r) = (case r of Inl e \<Rightarrow> Inl e | Inr t \<Rightarrow> if I t then rbind (f y t) (f x) else Inr t)"
    for x y r
  proof (cases r)
    case (Inl e)
    then show ?thesis by simp
  next
    case (Inr t)
    show ?thesis
    proof (cases "I t")
      case False
      with Inr show ?thesis by simp
    next
      case True
      show ?thesis
      proof (cases "f y t")
        case (Inl e)
        with Inr True show ?thesis by simp
      next
        case r: (Inr t')
        with True inv have "I t'" by blast
        with Inr True r show ?thesis by simp
      qed
    qed
  qed
  have "?F x \<circ> ?F y = ?F y \<circ> ?F x" if "x \<in> set xs" "y \<in> set xs" for x y
  proof (rule ext)
    fix r
    show "(?F x \<circ> ?F y) r = (?F y \<circ> ?F x) r"
    proof (cases "x = y")
      case True
      show ?thesis unfolding True ..
    next
      case False
      with comm that have "rbind (f x t) (f y) = rbind (f y t) (f x)" if "I t" for t
        using \<open>I t\<close> by blast
      then show ?thesis
        unfolding comp_def step by (cases r) simp_all
    qed
  qed
  then have "fold ?F xs = fold ?F ys"
    using perm by (rule fold_multiset_equiv)
  then show ?thesis
    using for_each_fold [of I f s, OF inv \<open>I s\<close>] by simp
qed

section \<open>The constructor\<close>

text \<open>
  The two loops of \<open>__init__\<close> in closed form, the engine \<open>Life(w, h)\<close> builds for
  \<open>w, h > 0\<close>, and the dimensions on which the constructor raises.
\<close>

lemma clear_rows_loop:
  "n \<le> length inb \<Longrightarrow>
   for_each clear_rows (map int [0..<n]) inb =
     Inr (map (\<lambda>k. inb ! k \<and> n \<le> k \<and> k + n \<le> length inb) [0..<length inb])"
proof (induction n)
  case 0
  then show ?case by (auto intro!: nth_equalityI)
next
  case (Suc n)
  let ?r = "map (\<lambda>k. inb ! k \<and> n \<le> k \<and> k + n \<le> length inb) [0..<length inb]"
  have n: "n < length inb" using Suc.prems by simp
  have step: "clear_rows (int n) ?r = Inr (?r[n := False, length inb - n := False])"
    using n by (cases "n = 0") (simp_all add: clear_rows_def setitem_eq valid_def sl_def nat_diff_distrib' list_update_beyond)
  have "?r[n := False, length inb - n := False] =
        map (\<lambda>k. inb ! k \<and> Suc n \<le> k \<and> k + Suc n \<le> length inb) [0..<length inb]"
  proof (cases "n = 0")
    case True
    with n show ?thesis
      by (intro nth_equalityI) (auto simp: nth_list_update list_update_beyond)
  next
    case False
    with n show ?thesis
      by (intro nth_equalityI) (auto simp: nth_list_update)
  qed
  with step Suc show ?case
    by (simp add: for_each_append)
qed

lemma clear_columns_loop:
  assumes "0 < W" and "int m * W < int (length inb)"
  shows "for_each (clear_columns (W - 2)) (map int [0..<m]) inb =
     Inr (map (\<lambda>k. inb ! k \<and> (\<forall>j\<in>{0..<int m}. int k \<noteq> (j + 1) * W - 1 \<and> int k \<noteq> (j + 1) * W))
              [0..<length inb])"
  using assms(2)
proof (induction m)
  case 0
  then show ?case by (auto intro!: nth_equalityI)
next
  case (Suc m)
  let ?r = "map (\<lambda>k. inb ! k \<and> (\<forall>j\<in>{0..<int m}. int k \<noteq> (j + 1) * W - 1 \<and> int k \<noteq> (j + 1) * W))
              [0..<length inb]"
  let ?k = "(int m + 1) * W"
  have lt: "?k < int (length inb)" using Suc.prems by (simp add: algebra_simps)
  have pos: "0 < ?k" "0 \<le> ?k - 1" using assms(1) by (simp_all add: add_pos_nonneg int_one_le_iff_zero_less)
  have m: "int m * W < int (length inb)"
    using Suc.prems assms(1) by (simp add: algebra_simps)
  have step: "clear_columns (W - 2) (int m) ?r = Inr (?r[nat (?k - 1) := False, nat ?k := False])"
    using lt pos by (simp add: clear_columns_def setitem_eq valid_def sl_def Let_def)
  have set_eq: "{0..<int (Suc m)} = insert (int m) {0..<int m}" by auto
  have "?r[nat (?k - 1) := False, nat ?k := False] =
        map (\<lambda>k. inb ! k \<and> (\<forall>j\<in>{0..<int (Suc m)}. int k \<noteq> (j + 1) * W - 1 \<and> int k \<noteq> (j + 1) * W))
              [0..<length inb]"
    unfolding set_eq using lt pos
    by (intro nth_equalityI) (auto simp: nth_list_update nat_eq_iff)
  with step Suc.IH [OF m] show ?case
    by (simp add: for_each_append)
qed

lemma Life_eq:
  assumes "0 < w" and "0 < h"
  shows "Life w h =
    Inr \<lparr>width = w, height = h,
         live = replicate (nat (cells w h)) False,
         in_bounds = map (\<lambda>k. masked w h (int k)) [0..<nat (cells w h)],
         neighbours = replicate (nat (cells w h)) 0,
         neighbourhood = offsets w,
         needs_update = {}\<rparr>"
proof -
  let ?L = "nat (cells w h)"
  let ?W = "w + 2"
  have L: "int ?L = ?W * (h + 2)" using assms by (simp add: cells_def)
  have WL: "nat ?W \<le> ?L"
    using assms by (simp add: cells_def nat_le_iff nat_mult_distrib)
  let ?r1 = "map (\<lambda>k. replicate ?L True ! k \<and> nat ?W \<le> k \<and> k + nat ?W \<le> ?L) [0..<?L]"
  have one: "for_each clear_rows (range_py ?W) (replicate ?L True) = Inr ?r1"
    using clear_rows_loop [of "nat ?W" "replicate ?L True"] WL by (simp add: range_py_def)
  have "h * ?W < ?W * (h + 2)"
    using assms by (simp add: algebra_simps)
  then have "int (nat h) * ?W < int ?L"
    using assms unfolding L by simp
  then have hW: "int (nat h) * ?W < int (length ?r1)"
    by simp
  have two: "for_each (clear_columns w) (range_py h) ?r1 =
     Inr (map (\<lambda>k. ?r1 ! k \<and> (\<forall>j\<in>{0..<int (nat h)}. int k \<noteq> (j + 1) * ?W - 1 \<and> int k \<noteq> (j + 1) * ?W))
              [0..<length ?r1])"
    using clear_columns_loop [of ?W "nat h" ?r1, OF _ hW] assms by (simp add: range_py_def)
  have mask: "map (\<lambda>k. ?r1 ! k \<and> (\<forall>j\<in>{0..<int (nat h)}. int k \<noteq> (j + 1) * ?W - 1 \<and> int k \<noteq> (j + 1) * ?W))
              [0..<length ?r1] = map (\<lambda>k. masked w h (int k)) [0..<?L]"
  proof (intro nth_equalityI)
    show "length (map (\<lambda>k. ?r1 ! k \<and> (\<forall>j\<in>{0..<int (nat h)}. int k \<noteq> (j + 1) * ?W - 1 \<and> int k \<noteq> (j + 1) * ?W))
              [0..<length ?r1]) = length (map (\<lambda>k. masked w h (int k)) [0..<?L])" by simp
  next
    fix i assume "i < length (map (\<lambda>k. ?r1 ! k \<and> (\<forall>j\<in>{0..<int (nat h)}. int k \<noteq> (j + 1) * ?W - 1 \<and> int k \<noteq> (j + 1) * ?W))
              [0..<length ?r1])"
    then have i: "i < ?L" by simp
    have a: "nat ?W \<le> i \<longleftrightarrow> ?W \<le> int i" using assms by linarith
    have b: "i + nat ?W \<le> ?L \<longleftrightarrow> int i \<le> ?W * (h + 1)"
    proof -
      have "0 \<le> cells w h" using assms by (simp add: cells_def)
      then have "i + nat ?W \<le> ?L \<longleftrightarrow> int i + ?W \<le> cells w h" using assms by linarith
      also have "\<dots> \<longleftrightarrow> int i \<le> ?W * (h + 1)" by (simp add: cells_def algebra_simps)
      finally show ?thesis .
    qed
    from i a b assms show "map (\<lambda>k. ?r1 ! k \<and> (\<forall>j\<in>{0..<int (nat h)}. int k \<noteq> (j + 1) * ?W - 1 \<and> int k \<noteq> (j + 1) * ?W))
              [0..<length ?r1] ! i = map (\<lambda>k. masked w h (int k)) [0..<?L] ! i"
      by (simp add: masked_def)
  qed
  show ?thesis
    unfolding Life_def Let_def cells_def [symmetric] one rbind_Inr two mask ..
qed

lemma Life_fails_iff:
  "Life w h = Inl IndexError \<longleftrightarrow> (- 1 \<le> w \<and> h \<le> - 2) \<or> (w \<le> - 2 \<and> 1 \<le> h)"
proof -
  let ?W = "w + 2"
  let ?L = "nat (cells w h)"
  consider (A) "1 \<le> ?W" "1 \<le> h + 2" | (B) "1 \<le> ?W" "h + 2 \<le> 0"
    | (C) "?W \<le> 0" "h \<le> 0" | (D) "?W \<le> 0" "1 \<le> h"
    by linarith
  then show ?thesis
  proof cases
    case A
    have "?W * 1 \<le> ?W * (h + 2)" using A by (intro mult_left_mono) simp_all
    then have WL: "nat ?W \<le> ?L" by (simp add: cells_def nat_le_iff)
    let ?r1 = "map (\<lambda>k. replicate ?L True ! k \<and> nat ?W \<le> k \<and> k + nat ?W \<le> ?L) [0..<?L]"
    have one: "for_each clear_rows (range_py ?W) (replicate ?L True) = Inr ?r1"
      using clear_rows_loop [of "nat ?W" "replicate ?L True"] WL by (simp add: range_py_def)
    have "\<exists>r. for_each (clear_columns w) (range_py h) ?r1 = Inr r"
    proof (cases "h \<le> 0")
      case True
      then show ?thesis by (simp add: range_py_def)
    next
      case False
      then have "h * ?W < ?W * (h + 2)" using A by (simp add: algebra_simps)
      then have "int (nat h) * ?W < int ?L" using False by (simp add: cells_def)
      then have "int (nat h) * ?W < int (length ?r1)" by simp
      from clear_columns_loop [of ?W "nat h" ?r1, OF _ this] A show ?thesis
        by (simp add: range_py_def)
    qed
    then obtain r where two: "for_each (clear_columns w) (range_py h) ?r1 = Inr r" ..
    have "Life w h \<noteq> Inl IndexError"
      unfolding Life_def Let_def cells_def [symmetric] one rbind_Inr two by simp
    with A show ?thesis by auto
  next
    case B
    have "?W * (h + 2) \<le> 0" using B by (simp add: mult_le_0_iff)
    then have L: "?L = 0" by (simp add: cells_def)
    have "[0..<nat ?W] = 0 # [Suc 0..<nat ?W]"
      using B by (intro upt_conv_Cons) simp
    then have r: "range_py ?W = 0 # map int [Suc 0..<nat ?W]"
      by (simp add: range_py_def)
    have "clear_rows 0 [] = Inl IndexError"
      by (simp add: clear_rows_def setitem_eq valid_def)
    then have "for_each clear_rows (range_py ?W) (replicate ?L True) = Inl IndexError"
      unfolding r L by simp
    then have "Life w h = Inl IndexError"
      unfolding Life_def Let_def cells_def [symmetric] by simp
    with B show ?thesis by auto
  next
    case C
    then have "Life w h \<noteq> Inl IndexError"
      by (simp add: Life_def Let_def range_py_def)
    with C show ?thesis by auto
  next
    case D
    have "?W * (h + 2) \<le> 0" using D by (simp add: mult_le_0_iff)
    then have L: "?L = 0" by (simp add: cells_def)
    have "[0..<nat h] = 0 # [Suc 0..<nat h]"
      using D by (intro upt_conv_Cons) simp
    then have r: "range_py h = 0 # map int [Suc 0..<nat h]"
      by (simp add: range_py_def)
    have "clear_columns w 0 [] = Inl IndexError"
      by (simp add: clear_columns_def setitem_eq valid_def Let_def)
    then have "for_each (clear_columns w) (range_py h) [] = Inl IndexError"
      unfolding r by simp
    then have "Life w h = Inl IndexError"
      unfolding Life_def Let_def cells_def [symmetric] using D
      by (simp add: L range_py_def)
    with D show ?thesis by auto
  qed
qed

text \<open>
  The loops raise nothing but \<open>IndexError\<close>, so the constructor returns on all other
  dimensions; with the limits of allocation it fails before the loops, or does what
  \<open>Life\<close> does.
\<close>

lemma clear_rows_error: "clear_rows i inb = Inl e \<Longrightarrow> e = IndexError"
  by (auto simp: clear_rows_def setitem_eq rbind_def split: if_splits sum.splits)

lemma clear_columns_error: "clear_columns w j inb = Inl e \<Longrightarrow> e = IndexError"
  by (auto simp: clear_columns_def Let_def setitem_eq rbind_def split: if_splits sum.splits)

lemma Life_error:
  assumes "Life w h = Inl e"
  shows "e = IndexError"
proof -
  have rows: "for_each clear_rows xs s = Inl e \<Longrightarrow> e = IndexError" for xs s
    by (rule for_each_error [of clear_rows IndexError]) (rule clear_rows_error)
  have columns: "for_each (clear_columns w) xs s = Inl e \<Longrightarrow> e = IndexError" for xs s
    by (rule for_each_error [of "clear_columns w" IndexError]) (rule clear_columns_error)
  from assms show ?thesis
    unfolding Life_def Let_def
    by (auto simp: rbind_def split: sum.splits dest: rows columns)
qed

lemma Life_returns_iff:
  "(\<exists>g. Life w h = Inr g) \<longleftrightarrow> \<not> ((- 1 \<le> w \<and> h \<le> - 2) \<or> (w \<le> - 2 \<and> 1 \<le> h))"
proof -
  have "(\<exists>g. Life w h = Inr g) \<longleftrightarrow> Life w h \<noteq> Inl IndexError"
    using Life_error [of w h] by (cases "Life w h") auto
  then show ?thesis
    using Life_fails_iff [of w h] by simp
qed

lemma list_times_eq:
  "list_times maxsize fits v n =
     (if n < - maxsize - 1 \<or> maxsize < n then Inl OverflowError
      else if 0 < n \<and> \<not> fits n then Inl MemoryError
      else Inr (replicate (nat n) v))"
  by (simp add: list_times_def)

lemma Life_init_eq:
  "Life_init maxsize fits w h =
     (if cells w h < - maxsize - 1 \<or> maxsize < cells w h then Inl OverflowError
      else if 0 < cells w h \<and> \<not> fits (cells w h) then Inl MemoryError
      else Life w h)"
  by (simp add: Life_init_def Life_def Let_def list_times_eq cells_def)

section \<open>The mask\<close>

text \<open>
  Which slots the constructed mask leaves in bounds: the interior slots and two slots of
  the border ring.
\<close>

lemma masked_bounds:
  "0 < h \<Longrightarrow> masked w h k \<Longrightarrow> w + 3 \<le> k \<and> k \<le> (w + 2) * (h + 1)"
proof -
  assume h: "0 < h" and m: "masked w h k"
  from h have "(0::int) \<in> {0..<h}" by simp
  with m have "k \<noteq> (0 + 1) * (w + 2)" unfolding masked_def by blast
  with m show ?thesis by (simp add: masked_def)
qed

lemma masked_valid:
  "0 < w \<Longrightarrow> 0 < h \<Longrightarrow> masked w h k \<Longrightarrow> 0 \<le> k \<and> k < cells w h"
  using masked_bounds [of h w k] by (simp add: cells_def algebra_simps)

lemma slot_div_mod:
  fixes W r c :: int
  assumes "0 \<le> c" and "c < W"
  shows "(W * r + c) div W = r" and "(W * r + c) mod W = c"
proof -
  have e: "W * r + c = c + W * r" by simp
  show "(W * r + c) div W = r" unfolding e using assms by (simp add: div_pos_pos_trivial)
  show "(W * r + c) mod W = c" unfolding e using assms by simp
qed

lemma cell_div_mod:
  fixes w x y :: int
  assumes "0 \<le> x" and "x < w"
  shows "((w + 2) * (y + 1) + x + 1) div (w + 2) = y + 1"
    and "((w + 2) * (y + 1) + x + 1) mod (w + 2) = x + 1"
proof -
  have e: "(w + 2) * (y + 1) + x + 1 = (x + 1) + (w + 2) * (y + 1)" by simp
  show "((w + 2) * (y + 1) + x + 1) div (w + 2) = y + 1"
    unfolding e using assms by (simp del: distrib_left_numeral add: div_pos_pos_trivial)
  show "((w + 2) * (y + 1) + x + 1) mod (w + 2) = x + 1"
    unfolding e using assms by (simp del: distrib_left_numeral)
qed

lemma interior_cell:
  assumes "0 \<le> x" and "x < w" and "0 \<le> y" and "y < h"
  shows "interior w h ((w + 2) * (y + 1) + x + 1)"
  unfolding interior_def cell_div_mod [OF assms(1,2)] using assms by simp

lemma interior_bounds:
  assumes "0 < w" and "0 < h" and "interior w h k"
  shows "w + 3 \<le> k \<and> k + (w + 3) < cells w h"
proof -
  let ?W = "w + 2"
  have k: "k = ?W * (k div ?W) + k mod ?W" by simp
  have r: "1 \<le> k div ?W" "k div ?W \<le> h" and c: "1 \<le> k mod ?W" "k mod ?W \<le> w"
    using assms(3) by (simp_all add: interior_def)
  define X where "X = ?W * (k div ?W)"
  define Y where "Y = ?W * h"
  have lo: "?W \<le> X"
    unfolding X_def using r assms(1) mult_left_mono [of 1 "k div ?W" ?W] by simp
  have hi: "X \<le> Y"
    unfolding X_def Y_def using r assms(1) by (intro mult_left_mono) simp_all
  define m where "m = k mod ?W"
  have "cells w h = Y + 2 * ?W" by (simp add: cells_def Y_def algebra_simps)
  moreover have "k = X + m" unfolding X_def m_def by simp
  moreover have "1 \<le> m" "m \<le> w" using c by (simp_all add: m_def)
  ultimately show ?thesis using lo hi by auto
qed

lemma interior_masked:
  assumes "0 < w" and "0 < h" and "interior w h k"
  shows "masked w h k"
proof -
  let ?W = "w + 2"
  have c: "1 \<le> k mod ?W" "k mod ?W \<le> w"
    using assms(3) by (simp_all add: interior_def)
  have b: "w + 3 \<le> k" "k + (w + 3) < cells w h"
    using interior_bounds [OF assms] by simp_all
  have "k \<noteq> (j + 1) * ?W - 1 \<and> k \<noteq> (j + 1) * ?W" for j
  proof -
    have "((j + 1) * ?W) mod ?W = 0" by simp
    moreover have "((j + 1) * ?W - 1) mod ?W = w + 1"
    proof -
      have e: "(j + 1) * ?W - 1 = (w + 1) + ?W * j" by (simp add: algebra_simps)
      have "((j + 1) * ?W - 1) mod ?W = ((w + 1) + ?W * j) mod ?W" by (simp only: e)
      also have "\<dots> = (w + 1) mod ?W" by (rule mod_mult_self2)
      also have "\<dots> = w + 1" using assms(1) by simp
      finally show ?thesis .
    qed
    ultimately show ?thesis using c by auto
  qed
  moreover have "k \<le> ?W * (h + 1)"
    using b by (simp add: cells_def algebra_simps)
  ultimately show ?thesis
    using b unfolding masked_def by simp
qed

lemma masked_iff:
  assumes w: "0 < w" and h: "0 < h"
  shows "masked w h k \<longleftrightarrow>
         interior w h k \<or> k = (h + 1) * (w + 2) - 1 \<or> k = (h + 1) * (w + 2)"
proof
  let ?W = "w + 2"
  assume m: "masked w h k"
  define r where "r = k div ?W"
  define c where "c = k mod ?W"
  have k: "k = ?W * r + c" by (simp add: r_def c_def)
  have c: "0 \<le> c" "c < ?W" using w by (simp_all add: c_def)
  have lo: "?W \<le> k" and hi: "k \<le> ?W * (h + 1)"
    and no: "\<And>j. 0 \<le> j \<Longrightarrow> j < h \<Longrightarrow> k \<noteq> (j + 1) * ?W - 1 \<and> k \<noteq> (j + 1) * ?W"
    using m by (auto simp: masked_def)
  have r1: "1 \<le> r"
  proof (rule ccontr)
    assume "\<not> 1 \<le> r"
    then have "r \<le> 0" by simp
    then have "?W * r \<le> 0" using w by (simp add: mult_le_0_iff)
    with k c lo show False by linarith
  qed
  have rh: "r \<le> h + 1"
  proof (rule ccontr)
    assume "\<not> r \<le> h + 1"
    then have "h + 2 \<le> r" by simp
    then have "?W * (h + 2) \<le> ?W * r" using w by (intro mult_left_mono) simp_all
    moreover have "?W * (h + 2) = ?W * (h + 1) + ?W" by (simp add: algebra_simps)
    ultimately show False using k c hi w by linarith
  qed
  show "interior w h k \<or> k = (h + 1) * ?W - 1 \<or> k = (h + 1) * ?W"
  proof (cases "r = h + 1")
    case True
    then have "k = ?W * (h + 1) + c" using k by simp
    with hi c have "k = (h + 1) * ?W" by (simp add: mult.commute)
    then show ?thesis by simp
  next
    case False
    with rh have rh': "r \<le> h" by simp
    have c0: "c \<noteq> 0"
    proof
      assume "c = 0"
      then have "k = ((r - 1) + 1) * ?W" using k by (simp add: mult.commute)
      with no [of "r - 1"] r1 rh' show False by simp
    qed
    show ?thesis
    proof (cases "c = w + 1")
      case True
      then have e: "k = (r + 1) * ?W - 1" using k by (simp add: algebra_simps)
      with no [of r] r1 have "\<not> r < h" by auto
      with rh' have "r = h" by simp
      with e show ?thesis by simp
    next
      case False
      with c c0 have "1 \<le> c" "c \<le> w" by simp_all
      with r1 rh' show ?thesis by (simp add: interior_def r_def c_def)
    qed
  qed
next
  let ?W = "w + 2"
  assume a: "interior w h k \<or> k = (h + 1) * ?W - 1 \<or> k = (h + 1) * ?W"
  have free: "k \<noteq> (j + 1) * ?W - 1 \<and> k \<noteq> (j + 1) * ?W"
    if "0 \<le> j" "j < h" "k = (h + 1) * ?W - 1 \<or> k = (h + 1) * ?W" for j
  proof -
    define A where "A = (j + 1) * ?W"
    define B where "B = h * ?W"
    have "A \<le> B" unfolding A_def B_def using that w by (intro mult_right_mono) simp_all
    moreover have "(h + 1) * ?W = B + ?W" by (simp add: B_def algebra_simps)
    ultimately show ?thesis using that(3) w unfolding A_def [symmetric] by auto
  qed
  from a show "masked w h k"
  proof (elim disjE)
    assume "interior w h k"
    then show ?thesis by (rule interior_masked [OF w h])
  next
    assume e: "k = (h + 1) * ?W - 1"
    have "?W * 1 \<le> ?W * h" using w h by (intro mult_left_mono) simp_all
    then have "?W \<le> k" "k \<le> ?W * (h + 1)" using e w by (simp_all add: algebra_simps)
    moreover have "\<forall>j\<in>{0..<h}. k \<noteq> (j + 1) * ?W - 1 \<and> k \<noteq> (j + 1) * ?W"
    proof
      fix j assume "j \<in> {0..<h}"
      then have "0 \<le> j" "j < h" by simp_all
      then show "k \<noteq> (j + 1) * ?W - 1 \<and> k \<noteq> (j + 1) * ?W"
        using free e by blast
    qed
    ultimately show ?thesis unfolding masked_def by blast
  next
    assume e: "k = (h + 1) * ?W"
    have "?W * 1 \<le> ?W * h" using w h by (intro mult_left_mono) simp_all
    then have "?W \<le> k" "k \<le> ?W * (h + 1)" using e w by (simp_all add: algebra_simps)
    moreover have "\<forall>j\<in>{0..<h}. k \<noteq> (j + 1) * ?W - 1 \<and> k \<noteq> (j + 1) * ?W"
    proof
      fix j assume "j \<in> {0..<h}"
      then have "0 \<le> j" "j < h" by simp_all
      then show "k \<noteq> (j + 1) * ?W - 1 \<and> k \<noteq> (j + 1) * ?W"
        using free e by blast
    qed
    ultimately show ?thesis unfolding masked_def by blast
  qed
qed

lemma ring_not_masked:
  assumes w: "0 < w" and h: "0 < h"
    and near: "near_grid w h (a, b, v)" and out: "\<not> in_grid w h (a, b, v)"
  shows "0 \<le> (w + 2) * (b + 1) + a + 1 \<and> (w + 2) * (b + 1) + a + 1 < cells w h \<and>
         \<not> masked w h ((w + 2) * (b + 1) + a + 1)"
proof -
  let ?W = "w + 2"
  let ?k = "?W * (b + 1) + a + 1"
  have a: "0 \<le> a + 1" "a + 1 < ?W" and b: "0 \<le> b + 1" "b + 1 \<le> h + 1"
    using near by (simp_all add: near_grid_def)
  have k: "?k = ?W * (b + 1) + (a + 1)" by simp
  have d: "?k div ?W = b + 1" and m: "?k mod ?W = a + 1"
    unfolding k using slot_div_mod [OF a] by simp_all
  have "0 \<le> ?W * (b + 1)" using b w by simp
  then have lo: "0 \<le> ?k" using a by linarith
  have "?W * (b + 1) \<le> ?W * (h + 1)" using b w by (intro mult_left_mono) simp_all
  moreover have "cells w h = ?W * (h + 1) + ?W" by (simp add: cells_def algebra_simps)
  ultimately have hi: "?k < cells w h" using a by linarith
  have "\<not> interior w h ?k"
    using out unfolding interior_def d m by (auto simp: in_grid_def)
  moreover have "?k \<noteq> (h + 1) * ?W - 1"
  proof
    assume "?k = (h + 1) * ?W - 1"
    then have e: "?k = ?W * h + (w + 1)" by (simp add: algebra_simps)
    have "?k div ?W = h" "?k mod ?W = w + 1"
      unfolding e using slot_div_mod [of "w + 1" ?W h] w by simp_all
    with d m near show False by (simp add: near_grid_def)
  qed
  moreover have "?k \<noteq> (h + 1) * ?W"
  proof
    assume "?k = (h + 1) * ?W"
    then have e: "?k = ?W * (h + 1) + 0" by (simp add: algebra_simps)
    have "?k div ?W = h + 1" "?k mod ?W = 0"
      unfolding e using slot_div_mod [of 0 ?W "h + 1"] w by simp_all
    with d m near show False by (simp add: near_grid_def)
  qed
  ultimately show ?thesis
    using lo hi masked_iff [OF w h] by simp
qed

section \<open>Closed form of \<open>set\<close>\<close>

text \<open>
  The loop of \<open>set\<close> and \<open>set\<close> itself, as a case distinction on the state.
\<close>

lemma length_bump [simp]: "length (bump a ks nb) = length nb"
  unfolding bump_def by (induction ks arbitrary: nb) simp_all

lemma bump_Nil [simp]: "bump a [] nb = nb"
  by (simp add: bump_def)

lemma bump_Cons: "bump a (k # ks) nb = bump a ks (nb[k := nb ! k + a])"
  by (simp add: bump_def)

lemma bump_nth:
  "i < length nb \<Longrightarrow> bump a ks nb ! i = nb ! i + a * int (count_list ks i)"
proof (induction ks arbitrary: nb)
  case Nil
  then show ?case by simp
next
  case (Cons k ks)
  then show ?case
    by (cases "k < length nb") (simp_all add: bump_Cons nth_list_update algebra_simps)
qed

lemma bump_commute: "bump a ks (bump b js nb) = bump b js (bump a ks nb)"
  by (intro nth_equalityI) (simp_all add: bump_nth)

lemma touched_Nil [simp]: "touched inb p [] = []"
  by (simp add: touched_def)

lemma touched_Cons:
  "touched inb p (d # ds) =
     (if inb ! sl (length inb) (d + p) then (d + p) # touched inb p ds else touched inb p ds)"
  by (simp add: touched_def)

lemma count_touched:
  "count_list (map f (touched inb p ds)) y =
     length (filter (\<lambda>d. inb ! sl (length inb) (d + p) \<and> f (d + p) = y) ds)"
  unfolding touched_def by (induction ds) simp_all

lemma touch_eq:
  "touch p a d g =
     (if touch_ok (in_bounds g) (length (neighbours g)) p d then
        Inr (g\<lparr>neighbours := bump a (map (sl (length (neighbours g))) (touched (in_bounds g) p [d])) (neighbours g),
               needs_update := needs_update g \<union> set (touched (in_bounds g) p [d])\<rparr>)
      else Inl IndexError)"
  by (simp add: touch_def Let_def getitem_eq setitem_eq touch_ok_def touched_Cons bump_Cons)

lemma touch_loop:
  "for_each (touch p a) ds g =
     (if \<forall>d\<in>set ds. touch_ok (in_bounds g) (length (neighbours g)) p d then
        Inr (g\<lparr>neighbours := bump a (map (sl (length (neighbours g))) (touched (in_bounds g) p ds)) (neighbours g),
               needs_update := needs_update g \<union> set (touched (in_bounds g) p ds)\<rparr>)
      else Inl IndexError)"
proof (induction ds arbitrary: g)
  case Nil
  then show ?case by simp
next
  case (Cons d ds)
  have h: "touch p a d g =
     (if touch_ok (in_bounds g) (length (neighbours g)) p d then
        Inr (g\<lparr>neighbours := bump a (map (sl (length (neighbours g))) (touched (in_bounds g) p [d])) (neighbours g),
               needs_update := needs_update g \<union> set (touched (in_bounds g) p [d])\<rparr>)
      else Inl IndexError)"
    by (rule touch_eq)
  show ?case
    unfolding for_each.simps h
    by (simp add: Cons.IH touched_Cons bump_Cons Un_assoc)
qed

lemma set_cell_eq:
  "set_cell p v g =
     (if \<not> valid (length (live g)) p then Inl IndexError
      else if v = live g ! sl (length (live g)) p then Inr g
      else if \<not> valid (length (in_bounds g)) p then Inl IndexError
      else if \<not> in_bounds g ! sl (length (in_bounds g)) p then Inr g
      else if \<forall>d\<in>set (neighbourhood g). touch_ok (in_bounds g) (length (neighbours g)) p d then
        Inr (g\<lparr>live := (live g)[sl (length (live g)) p := v],
               neighbours := bump (if v then 1 else - 1)
                   (map (sl (length (neighbours g))) (touched (in_bounds g) p (neighbourhood g)))
                   (neighbours g),
               needs_update := insert p (needs_update g) \<union>
                   set (touched (in_bounds g) p (neighbourhood g))\<rparr>)
      else Inl IndexError)"
  by (simp add: set_cell_def getitem_eq setitem_eq touch_loop)

lemma set_cell_alt:
  "set_cell p v g =
     (if set_raises g p v then Inl IndexError
      else if set_acts g p v then Inr (set_effect g p v) else Inr g)"
  by (auto simp: set_cell_eq set_raises_def set_acts_def set_effect_def)

lemma set_effect_shape [simp]:
  "length (live (set_effect g q u)) = length (live g)"
  "in_bounds (set_effect g q u) = in_bounds g"
  "length (neighbours (set_effect g q u)) = length (neighbours g)"
  "neighbourhood (set_effect g q u) = neighbourhood g"
  by (simp_all add: set_effect_def)

lemma set_cell_length:
  "set_cell p v s = Inr s' \<Longrightarrow> length (live s') = length (live s)"
  by (auto simp: set_cell_alt split: if_splits)

lemma shape_set_effect [simp]: "shape w h (set_effect g p v) = shape w h g"
  by (simp add: shape_def set_effect_def)

lemma shape_clear_dirty [simp]: "shape w h (g\<lparr>needs_update := S\<rparr>) = shape w h g"
  by (simp add: shape_def)

text \<open>
  \<open>set_cell\<close> is the result of the call that \<open>set_obj\<close> describes on the object.
\<close>

lemma touch_of_obj:
  "touch p a d g =
     (case touch_obj p a d g of (g', None) \<Rightarrow> Inr g' | (g', Some e) \<Rightarrow> Inl e)"
  by (simp add: touch_def touch_obj_def Let_def rbind_def split: sum.splits)

lemma set_cell_of_obj:
  "set_cell p v g =
     (case set_obj p v g of (g', None) \<Rightarrow> Inr g' | (g', Some e) \<Rightarrow> Inl e)"
  unfolding set_cell_def set_obj_def
  by (simp add: rbind_def for_each_of_obj [where fo = "touch_obj p x" for x, OF touch_of_obj]
      split: sum.splits)

lemma set_obj_returns: "set_obj p v g = (g', None) \<longleftrightarrow> set_cell p v g = Inr g'"
  by (auto simp: set_cell_of_obj split: prod.splits option.splits)

section \<open>The invariant\<close>

text \<open>
  \<open>Life(w, h)\<close> establishes \<open>consistent\<close> and every operation that returns keeps it.
\<close>

lemma consistent_in_bounds:
  "consistent w h g \<Longrightarrow> 0 \<le> k \<Longrightarrow> k < cells w h \<Longrightarrow> in_bounds g ! nat k = masked w h k"
  by (simp add: consistent_def nat_less_iff)

lemma consistent_counts:
  assumes "0 < w" and "0 < h" and "consistent w h g"
    and "0 \<le> i" and "i < int (length (in_bounds g))" and "in_bounds g ! nat i"
  shows "neighbours g ! nat i = int (live_neighbours g i)"
proof -
  have len: "length (in_bounds g) = nat (cells w h)"
    using assms(3) by (simp add: consistent_def)
  have "nat i < nat (cells w h)"
    using assms(4,5) unfolding len by linarith
  then have "in_bounds g ! nat i = masked w h (int (nat i))"
    using assms(3) by (simp add: consistent_def)
  with assms(4,6) have "masked w h i" by simp
  with assms(3) show ?thesis by (simp add: consistent_def)
qed

lemma consistent_clear_dirty: "consistent w h g \<Longrightarrow> consistent w h (g\<lparr>needs_update := {}\<rparr>)"
  by (simp add: consistent_def live_neighbours_def)

lemma Life_consistent:
  assumes "0 < w" and "0 < h" and "Life w h = Inr g"
  shows "consistent w h g"
proof -
  have g: "g = \<lparr>width = w, height = h,
         live = replicate (nat (cells w h)) False,
         in_bounds = map (\<lambda>k. masked w h (int k)) [0..<nat (cells w h)],
         neighbours = replicate (nat (cells w h)) 0,
         neighbourhood = offsets w,
         needs_update = {}\<rparr>"
    using Life_eq [OF assms(1,2)] assms(3) by simp
  have "live_neighbours g k = 0" for k
    unfolding live_neighbours_def g by (auto simp: filter_empty_conv nat_less_iff)
  moreover have "masked w h k \<Longrightarrow> nat k < nat (cells w h)" for k
    using masked_valid [OF assms(1,2), of k] by simp
  ultimately show ?thesis
    unfolding consistent_def by (simp add: g)
qed

lemma count_offsets_sym:
  "0 < w \<Longrightarrow> count_list (offsets w) (- c) = count_list (offsets w) c"
  by (simp add: offsets_eq)

lemma touched_slot:
  assumes w: "0 < w" and h: "0 < h"
    and k: "masked w h k" and q: "masked w h (int (sl (nat (cells w h)) p))"
    and p: "valid (nat (cells w h)) p"
    and d: "d \<in> set (offsets w)" and dp: "valid (nat (cells w h)) (d + p)"
  shows "sl (nat (cells w h)) (d + p) = nat k \<longleftrightarrow> int (sl (nat (cells w h)) p) + d = k"
proof -
  define M where "M = (w + 2) * (h + 1)"
  have L: "cells w h = M + (w + 2)" by (simp add: cells_def M_def algebra_simps)
  have kb: "w + 3 \<le> k" "k \<le> M" using masked_bounds [OF h k] by (simp_all add: M_def)
  have qb: "w + 3 \<le> int (sl (nat (cells w h)) p)" "int (sl (nat (cells w h)) p) \<le> M"
    using masked_bounds [OF h q] by (simp_all add: M_def)
  have db: "- (w + 3) \<le> d" "d \<le> w + 3" using d w by (auto simp: offsets_eq)
  have Mpos: "0 < M" using kb w by simp
  show ?thesis
    using kb qb db p dp w Mpos unfolding L
    by (auto simp: sl_def valid_def split: if_splits)
qed

lemma count_changed:
  fixes k q :: int
  assumes "\<And>d. d \<in> set ds \<Longrightarrow> k + d = q \<Longrightarrow> P d \<and> (B d \<longleftrightarrow> \<not> v)"
  shows "int (length (filter (\<lambda>d. P d \<and> (if k + d = q then v else B d)) ds)) =
         int (length (filter (\<lambda>d. P d \<and> B d) ds)) + (if v then 1 else - 1) * int (count_list ds (q - k))"
  using assms
proof (induction ds)
  case Nil
  then show ?case by simp
next
  case (Cons d ds)
  have eq: "q - k = d \<longleftrightarrow> k + d = q" by auto
  from Cons show ?case
    by (cases "k + d = q") (auto simp: eq algebra_simps)
qed

lemma set_effect_consistent:
  assumes w: "0 < w" and h: "0 < h" and wf: "consistent w h g"
    and p: "valid (nat (cells w h)) p"
    and inb: "in_bounds g ! sl (nat (cells w h)) p"
    and lv: "live g ! sl (nat (cells w h)) p \<noteq> v"
    and ok: "\<forall>d\<in>set (offsets w). touch_ok (in_bounds g) (nat (cells w h)) p d"
  shows "consistent w h (g\<lparr>live := (live g)[sl (nat (cells w h)) p := v],
               neighbours := bump (if v then 1 else - 1)
                   (map (sl (nat (cells w h))) (touched (in_bounds g) p (offsets w)))
                   (neighbours g),
               needs_update := insert p (needs_update g) \<union>
                   set (touched (in_bounds g) p (offsets w))\<rparr>)"
    (is "consistent w h ?g'")
proof -
  let ?L = "nat (cells w h)"
  let ?q = "sl ?L p"
  let ?a = "if v then 1 else - 1 :: int"
  have len: "length (live g) = ?L" "length (neighbours g) = ?L" "length (in_bounds g) = ?L"
    using wf by (simp_all add: consistent_def)
  have nth_inb: "in_bounds g ! i = masked w h (int i)" if "i < ?L" for i
    using wf that by (simp add: consistent_def)
  have q: "?q < ?L" using p by (rule sl_less)
  have mq: "masked w h (int ?q)" using inb nth_inb [OF q] by simp
  have dvalid: "valid ?L (d + p)" if "d \<in> set (offsets w)" for d
    using ok that by (simp add: touch_ok_def len)
  have dirty: "valid ?L x \<and> masked w h (int (sl ?L x))"
    if x: "x \<in> insert p (needs_update g) \<union> set (touched (in_bounds g) p (offsets w))" for x
  proof -
    consider "x = p" | "x \<in> needs_update g" | "x \<in> set (touched (in_bounds g) p (offsets w))"
      using x by auto
    then show ?thesis
    proof cases
      case 1
      with p mq show ?thesis by simp
    next
      case 2
      with wf show ?thesis by (simp add: consistent_def)
    next
      case 3
      then obtain d where d: "d \<in> set (offsets w)" "x = d + p"
        and b: "in_bounds g ! sl ?L (d + p)"
        by (auto simp: touched_def len)
      from dvalid [OF d(1)] have "sl ?L (d + p) < ?L" by (rule sl_less)
      with b nth_inb have "masked w h (int (sl ?L (d + p)))" by simp
      with dvalid [OF d(1)] d(2) show ?thesis by simp
    qed
  qed
  have counts: "neighbours ?g' ! nat k = int (live_neighbours ?g' k)" if k: "masked w h k" for k
  proof -
    have kv: "0 \<le> k" "k < cells w h" using masked_valid [OF w h k] by simp_all
    then have kL: "nat k < ?L" by simp
    have old: "neighbours g ! nat k = int (live_neighbours g k)"
      using wf k by (simp add: consistent_def)
    have c1: "count_list (map (sl ?L) (touched (in_bounds g) p (offsets w))) (nat k) =
              count_list (offsets w) (k - int ?q)"
    proof -
      have "length (filter (\<lambda>d. in_bounds g ! sl ?L (d + p) \<and> sl ?L (d + p) = nat k) (offsets w)) =
            length (filter (\<lambda>d. d = k - int ?q) (offsets w))"
      proof (rule arg_cong [where f = length], rule filter_cong [OF refl])
        fix d assume d: "d \<in> set (offsets w)"
        have "sl ?L (d + p) = nat k \<longleftrightarrow> int ?q + d = k"
          by (rule touched_slot [OF w h k mq p d dvalid [OF d]])
        moreover have "in_bounds g ! nat k" using nth_inb [OF kL] k kv by simp
        ultimately show "(in_bounds g ! sl ?L (d + p) \<and> sl ?L (d + p) = nat k) = (d = k - int ?q)"
          by auto
      qed
      then have "length (filter (\<lambda>d. in_bounds g ! sl (length (in_bounds g)) (d + p) \<and>
                 sl ?L (d + p) = nat k) (offsets w)) =
            count_list (offsets w) (k - int ?q)"
        by (simp only: len count_list_filter_conv)
      then show ?thesis
        by (simp only: count_touched)
    qed
    have c2: "int (live_neighbours ?g' k) =
              int (live_neighbours g k) + ?a * int (count_list (offsets w) (int ?q - k))"
    proof -
      let ?P = "\<lambda>d. 0 \<le> k + d \<and> k + d < int ?L \<and> in_bounds g ! nat (k + d)"
      let ?B = "\<lambda>d. live g ! nat (k + d)"
      have "filter (\<lambda>d. ?P d \<and> (live g)[?q := v] ! nat (k + d)) (offsets w) =
            filter (\<lambda>d. ?P d \<and> (if k + d = int ?q then v else ?B d)) (offsets w)"
      proof (rule filter_cong [OF refl])
        fix d
        show "(?P d \<and> (live g)[?q := v] ! nat (k + d)) =
              (?P d \<and> (if k + d = int ?q then v else ?B d))"
          using q by (auto simp: nth_list_update len nat_eq_iff)
      qed
      moreover have "int (length (filter (\<lambda>d. ?P d \<and> (if k + d = int ?q then v else ?B d)) (offsets w))) =
            int (length (filter (\<lambda>d. ?P d \<and> ?B d) (offsets w))) + ?a * int (count_list (offsets w) (int ?q - k))"
      proof (rule count_changed)
        fix d assume "k + d = int ?q"
        then show "?P d \<and> (?B d \<longleftrightarrow> \<not> v)"
          using q inb lv by auto
      qed
      ultimately show ?thesis
        using wf by (simp add: live_neighbours_def len consistent_def)
    qed
    have c3: "count_list (offsets w) (int ?q - k) = count_list (offsets w) (k - int ?q)"
      using count_offsets_sym [OF w, of "k - int ?q"] by simp
    show ?thesis
      using kL old c1 c2 c3 by (simp add: bump_nth len)
  qed
  show ?thesis
    unfolding consistent_def
  proof (intro conjI)
    show "\<forall>p\<in>needs_update ?g'. valid ?L p \<and> masked w h (int (sl ?L p))"
      using dirty by simp
    show "\<forall>k. masked w h k \<longrightarrow> neighbours ?g' ! nat k = int (live_neighbours ?g' k)"
      using counts by blast
  qed (use wf in \<open>simp_all add: consistent_def\<close>)
qed

lemma set_consistent:
  assumes w: "0 < w" and h: "0 < h" and wf: "consistent w h g" and r: "set_cell p v g = Inr g'"
  shows "consistent w h g'"
proof -
  have len: "length (live g) = nat (cells w h)" "length (neighbours g) = nat (cells w h)"
    "length (in_bounds g) = nat (cells w h)" "neighbourhood g = offsets w"
    using wf by (simp_all add: consistent_def)
  show ?thesis
    using r wf set_effect_consistent [OF w h wf, of p v]
    by (auto simp: set_cell_eq len split: if_splits)
qed

lemma set_calls_consistent:
  assumes "0 < w" and "0 < h" and "consistent w h g" and "set_calls cs g = Inr g'"
  shows "consistent w h g'"
proof (rule for_each_invariant [where I = "consistent w h" and f = "\<lambda>(p, v). set_cell p v" and xs = cs and s = g])
  fix x s s'
  assume "consistent w h s" and "(case x of (p, v) \<Rightarrow> set_cell p v) s = Inr s'"
  then show "consistent w h s'"
    using set_consistent [OF assms(1,2)] by (cases x) auto
next
  show "consistent w h g" by fact
  show "for_each (\<lambda>(p, v). set_cell p v) cs g = Inr g'"
    using assms(4) by (simp add: set_calls_def)
qed

lemma life_rule_consistent:
  assumes "0 < w" and "0 < h" and "consistent w h g" and "life_rule t g = Inr g'"
  shows "consistent w h g'"
proof -
  obtain p l c where t: "t = (p, l, c)" by (cases t) auto
  show ?thesis
    using assms(3,4) set_consistent [OF assms(1,2)] unfolding t
    by (auto split: if_splits)
qed

lemma update_gen_consistent:
  assumes "0 < w" and "0 < h" and "consistent w h g" and "update_gen ord g = Inr g'"
  shows "consistent w h g'"
proof -
  from assms(4) obtain u where "for_each life_rule u (g\<lparr>needs_update := {}\<rparr>) = Inr g'"
    by (auto simp: update_gen_def rbind_eq_Inr)
  then show ?thesis
    using for_each_invariant [where I = "consistent w h" and f = life_rule and xs = u]
      life_rule_consistent [OF assms(1,2)] consistent_clear_dirty [OF assms(3)] by blast
qed

lemma paste_consistent:
  assumes "0 < w" and "0 < h" and "consistent w h g" and "paste s x y g = Inr g'"
  shows "consistent w h g'"
proof -
  let ?inner = "\<lambda>j. (\<lambda>(i, char) g. set_cell (cell g (x + int i) (y + int j)) (char = CHR ''o'') g)"
  let ?outer = "\<lambda>(j, line). for_each (?inner j) (enumerate 0 (strip line))"
  have inner: "consistent w h t'" if "consistent w h t" "?inner j a t = Inr t'" for j a t t'
    using that set_consistent [OF assms(1,2)] by (cases a) auto
  have outer: "consistent w h t'" if "consistent w h t" "?outer a t = Inr t'" for a t t'
  proof -
    obtain j line where a: "a = (j, line)" by (cases a) auto
    from that(2) have "for_each (?inner j) (enumerate 0 (strip line)) t = Inr t'"
      by (simp add: a)
    then show ?thesis
      using for_each_invariant [where I = "consistent w h" and f = "?inner j"] inner that(1) by blast
  qed
  from assms(4) have "for_each ?outer (enumerate 0 (splitlines (strip s))) g = Inr g'"
    by (simp add: paste_def)
  then show ?thesis
    using for_each_invariant [where I = "consistent w h" and f = ?outer] outer assms(3) by blast
qed

lemma reachable_consistent:
  assumes "0 < w" and "0 < h" and "reachable w h g"
  shows "consistent w h g"
  using assms(3)
proof (induction rule: reachable.induct)
  case (constructed g)
  then show ?case using Life_consistent assms(1,2) by blast
next
  case (by_set g p v g')
  then show ?case using set_consistent assms(1,2) by blast
next
  case (by_update g ord g')
  then show ?case using update_gen_consistent assms(1,2) by blast
next
  case (by_paste g s x y g')
  then show ?case using paste_consistent assms(1,2) by blast
qed

section \<open>Interior cells\<close>

text \<open>
  \<open>set\<close> on an interior slot returns; on a slot whose neighbours are interior too, the
  new \<open>live\<close>, \<open>neighbours\<close> and \<open>needs_update\<close> are explicit.
\<close>

lemma set_interior_returns:
  assumes w: "0 < w" and h: "0 < h" and wf: "consistent w h g" and k: "interior w h k"
  shows "(\<forall>i\<in>set (subscripts k g). 0 \<le> i \<and> i < cells w h) \<and> (\<exists>g'. set_cell k v g = Inr g')"
proof -
  have len: "length (live g) = nat (cells w h)" "length (neighbours g) = nat (cells w h)"
    "length (in_bounds g) = nat (cells w h)" "neighbourhood g = offsets w"
    using wf by (simp_all add: consistent_def)
  have b: "w + 3 \<le> k" "k + (w + 3) < cells w h"
    using interior_bounds [OF w h k] by simp_all
  have sub: "0 \<le> i \<and> i < cells w h" if "i \<in> set (subscripts k g)" for i
    using that b w by (auto simp: subscripts_def len offsets_eq)
  have "valid (nat (cells w h)) k" using b w by (simp add: valid_def)
  moreover have "touch_ok (in_bounds g) (nat (cells w h)) k d" if "d \<in> set (offsets w)" for d
  proof -
    have "d + k \<in> set (subscripts k g)" using that by (simp add: subscripts_def len)
    from sub [OF this] show ?thesis by (simp add: touch_ok_def valid_def len)
  qed
  ultimately have "\<exists>g'. set_cell k v g = Inr g'"
    by (simp add: set_cell_eq len)
  with sub show ?thesis by blast
qed

lemma inner_neighbour:
  assumes w: "0 < w" and p: "inner w h p"
    and dx: "- 1 \<le> dx" "dx \<le> 1" and dy: "- 1 \<le> dy" "dy \<le> 1"
  shows "interior w h (dy * (w + 2) + dx + p)"
proof -
  let ?W = "w + 2"
  define r where "r = p div ?W"
  define c where "c = p mod ?W"
  have "p = ?W * r + c" by (simp add: r_def c_def)
  then have "dy * ?W + dx + p = ?W * (r + dy) + (c + dx)"
    by (simp add: algebra_simps)
  then have e: "dy * ?W + dx + p = ?W * (p div ?W + dy) + (p mod ?W + dx)"
    by (simp only: r_def c_def)
  have c: "0 \<le> p mod ?W + dx" "p mod ?W + dx < ?W"
    using p dx by (simp_all add: inner_def)
  have "(dy * ?W + dx + p) div ?W = p div ?W + dy" "(dy * ?W + dx + p) mod ?W = p mod ?W + dx"
    unfolding e using slot_div_mod [OF c] by simp_all
  then show ?thesis
    using p dx dy by (simp add: interior_def inner_def)
qed

lemma inner_offsets:
  assumes w: "0 < w" and p: "inner w h p" and d: "d \<in> set (0 # offsets w)"
  shows "interior w h (d + p)"
proof -
  have n: "interior w h (d + p)"
    if "d = dy * (w + 2) + dx" "- 1 \<le> dx" "dx \<le> 1" "- 1 \<le> dy" "dy \<le> 1" for dx dy
    using inner_neighbour [OF w p that(2-5)] that(1) by simp
  from d consider "d = 0" | "d = - (w + 2) - 1" | "d = - 1" | "d = (w + 2) - 1" | "d = - (w + 2)"
    | "d = w + 2" | "d = - (w + 2) + 1" | "d = 1" | "d = (w + 2) + 1"
    by (auto simp: offsets_eq)
  then show ?thesis
  proof cases
    case 1 show ?thesis by (rule n [of 0 0]) (simp_all add: 1)
  next
    case 2 show ?thesis by (rule n [of "- 1" "- 1"]) (simp_all add: 2)
  next
    case 3 show ?thesis by (rule n [of 0 "- 1"]) (simp_all add: 3)
  next
    case 4 show ?thesis by (rule n [of 1 "- 1"]) (simp_all add: 4)
  next
    case 5 show ?thesis by (rule n [of "- 1" 0]) (simp_all add: 5)
  next
    case 6 show ?thesis by (rule n [of 1 0]) (simp_all add: 6)
  next
    case 7 show ?thesis by (rule n [of "- 1" 1]) (simp_all add: 7)
  next
    case 8 show ?thesis by (rule n [of 0 1]) (simp_all add: 8)
  next
    case 9 show ?thesis by (rule n [of 1 1]) (simp_all add: 9)
  qed
qed

lemma inner_facts:
  assumes w: "0 < w" and h: "0 < h" and s: "shape w h g" and p: "inner w h p"
    and d: "d \<in> set (0 # offsets w)"
  shows "0 \<le> d + p" and "d + p < cells w h" and "in_bounds g ! nat (d + p)"
proof -
  have i: "interior w h (d + p)" using inner_offsets [OF w p d] .
  have m: "masked w h (d + p)" using interior_masked [OF w h i] .
  show v: "0 \<le> d + p" "d + p < cells w h" using masked_valid [OF w h m] by simp_all
  then have "nat (d + p) < nat (cells w h)" by simp
  then have "in_bounds g ! nat (d + p) = masked w h (int (nat (d + p)))"
    using s by (simp add: shape_def)
  with m v show "in_bounds g ! nat (d + p)" by simp
qed

lemma touched_inner:
  assumes w: "0 < w" and h: "0 < h" and s: "shape w h g" and p: "inner w h p"
  shows "touched (in_bounds g) p (offsets w) = map (\<lambda>d. d + p) (offsets w)"
proof -
  have len: "length (in_bounds g) = nat (cells w h)" using s by (simp add: shape_def)
  have "in_bounds g ! sl (length (in_bounds g)) (d + p)" if "d \<in> set (offsets w)" for d
    using inner_facts [OF w h s p, of d] that by (simp add: sl_def)
  then show ?thesis
    unfolding touched_def by (simp add: filter_id_conv)
qed

lemma set_cell_inner:
  assumes w: "0 < w" and h: "0 < h" and s: "shape w h g" and p: "inner w h p"
  shows "set_cell p v g = (if live g ! nat p = v then Inr g else Inr (set_effect g p v))"
proof -
  have len: "length (live g) = nat (cells w h)" "length (neighbours g) = nat (cells w h)"
    "length (in_bounds g) = nat (cells w h)" "neighbourhood g = offsets w"
    using s by (simp_all add: shape_def)
  have p0: "0 \<le> p" "p < cells w h" "in_bounds g ! nat p"
    using inner_facts [OF w h s p, of 0] by simp_all
  have "touch_ok (in_bounds g) (nat (cells w h)) p d" if "d \<in> set (offsets w)" for d
    using inner_facts [OF w h s p, of d] that by (simp add: touch_ok_def valid_def len)
  then show ?thesis
    using p0 by (auto simp: set_cell_alt set_raises_def set_acts_def len valid_def sl_def)
qed

lemma live_set_effect:
  assumes "0 \<le> p" and "k < length (live g)"
  shows "live (set_effect g p v) ! k = (if k = nat p then v else live g ! k)"
  using assms by (simp add: set_effect_def sl_def nth_list_update)

lemma neighbours_set_effect:
  assumes w: "0 < w" and h: "0 < h" and s: "shape w h g" and p: "inner w h p"
    and k: "k < nat (cells w h)"
  shows "neighbours (set_effect g p v) ! k =
         neighbours g ! k + (if int k - p \<in> set (offsets w) then (if v then 1 else - 1) else 0)"
proof -
  have len: "length (neighbours g) = nat (cells w h)" "neighbourhood g = offsets w"
    using s by (simp_all add: shape_def)
  have "count_list (map (sl (nat (cells w h))) (map (\<lambda>d. d + p) (offsets w))) k =
        count_list (offsets w) (int k - p)"
  proof -
    have "sl (nat (cells w h)) (d + p) = k \<longleftrightarrow> d = int k - p" if "d \<in> set (offsets w)" for d
      using inner_facts(1) [OF w h s p, of d] that by (auto simp: sl_def)
    then have "filter (\<lambda>d. sl (nat (cells w h)) (d + p) = k) (offsets w) =
               filter (\<lambda>d. d = int k - p) (offsets w)"
      by (intro filter_cong) simp_all
    then show ?thesis
      by (simp add: count_list_filter_conv filter_map comp_def)
  qed
  moreover have "count_list (offsets w) c = (if c \<in> set (offsets w) then 1 else 0)" for c
    using w by (auto simp: offsets_eq)
  ultimately show ?thesis
    using k by (simp add: set_effect_def len touched_inner [OF w h s p] bump_nth)
qed

lemma dirty_set_effect:
  assumes w: "0 < w" and h: "0 < h" and s: "shape w h g" and p: "inner w h p"
  shows "needs_update (set_effect g p v) =
         insert p (needs_update g) \<union> (\<lambda>d. d + p) ` set (offsets w)"
proof -
  have "neighbourhood g = offsets w" using s by (simp add: shape_def)
  then show ?thesis
    by (simp add: set_effect_def touched_inner [OF w h s p])
qed

section \<open>Commuting calls and the order of a generation\<close>

text \<open>
  Two \<open>set\<close> calls on different slots commute, and so do the steps of one generation
  when no two dirty indices name the same slot.
\<close>

lemma set_effect_live_other:
  "sl (length (live g)) p \<noteq> sl (length (live g)) q \<Longrightarrow>
   live (set_effect g q u) ! sl (length (live g)) p = live g ! sl (length (live g)) p"
  by (simp add: set_effect_def)

lemma set_raises_after:
  "sl (length (live g)) p \<noteq> sl (length (live g)) q \<Longrightarrow>
   set_raises (set_effect g q u) p v = set_raises g p v"
  by (simp add: set_raises_def set_effect_live_other)

lemma set_acts_after:
  "sl (length (live g)) p \<noteq> sl (length (live g)) q \<Longrightarrow>
   set_acts (set_effect g q u) p v = set_acts g p v"
  by (simp add: set_acts_def set_effect_live_other)

lemma set_effect_commute:
  assumes "sl (length (live g)) p \<noteq> sl (length (live g)) q"
  shows "set_effect (set_effect g q u) p v = set_effect (set_effect g p v) q u"
proof -
  have "insert p (insert q A \<union> C) \<union> B = insert q (insert p A \<union> B) \<union> C" for A B C :: "int set"
    by auto
  then show ?thesis
    using assms
    by (simp add: set_effect_def list_update_swap bump_commute [of "if v then 1 else - 1"])
qed

lemma set_cell_commute:
  assumes "slot (length (live g)) p \<noteq> slot (length (live g)) q"
  shows "rbind (set_cell p v g) (set_cell q u) = rbind (set_cell q u g) (set_cell p v)"
proof (cases "valid (length (live g)) p \<and> valid (length (live g)) q")
  case False
  then have "set_raises g p v \<or> set_raises g q u"
    by (auto simp: set_raises_def)
  moreover have "set_raises (set_effect g q u) p v" if "\<not> valid (length (live g)) p"
    using that by (simp add: set_raises_def)
  moreover have "set_raises (set_effect g p v) q u" if "\<not> valid (length (live g)) q"
    using that by (simp add: set_raises_def)
  ultimately show ?thesis
    using False by (auto simp: set_cell_alt set_raises_def)
next
  case True
  then have n: "sl (length (live g)) p \<noteq> sl (length (live g)) q"
    using assms by (simp add: slot_eq)
  note n' = n [symmetric]
  show ?thesis
    by (simp add: set_cell_alt set_raises_after [OF n] set_raises_after [OF n']
        set_acts_after [OF n] set_acts_after [OF n'] set_effect_commute [OF n])
qed

lemma snapshot_eq:
  "snapshot g ord =
     (if \<forall>p\<in>set ord. valid (length (live g)) p \<and> valid (length (neighbours g)) p
      then Inr (map (\<lambda>p. (p, live g ! sl (length (live g)) p,
                             neighbours g ! sl (length (neighbours g)) p)) ord)
      else Inl IndexError)"
  by (induction ord) (auto simp: getitem_eq)

lemma life_rule_alt:
  "life_rule (p, l, c) =
     (if l \<and> \<not> (2 \<le> c \<and> c \<le> 3) then set_cell p False
      else if \<not> l \<and> c = 3 then set_cell p True else Inr)"
  by (auto simp: fun_eq_iff)

lemma life_rule_length:
  "life_rule t g = Inr g' \<Longrightarrow> length (live g') = length (live g)"
  using set_cell_length by (cases t) (auto split: if_splits)

lemma life_rule_commute:
  assumes "slot (length (live g)) (fst x) \<noteq> slot (length (live g)) (fst y)"
  shows "rbind (life_rule x g) (life_rule y) = rbind (life_rule y g) (life_rule x)"
proof -
  obtain p l c q l' c' where x: "x = (p, l, c)" and y: "y = (q, l', c')"
    by (cases x, cases y) auto
  show ?thesis
    using set_cell_commute [of g p q] assms unfolding x y life_rule_alt
    by simp
qed

lemma update_gen_order:
  assumes o1: "iterates o1 (needs_update g)" and o2: "iterates o2 (needs_update g)"
    and inj: "inj_on (slot (length (live g))) (needs_update g)"
  shows "update_gen o1 g = update_gen o2 g"
proof -
  let ?t = "\<lambda>p. (p, live g ! sl (length (live g)) p, neighbours g ! sl (length (neighbours g)) p)"
  let ?g = "g\<lparr>needs_update := {}\<rparr>"
  let ?I = "\<lambda>s :: life. length (live s) = length (live g)"
  have sets: "set o1 = needs_update g" "set o2 = needs_update g" and d: "distinct o1" "distinct o2"
    using o1 o2 by (simp_all add: iterates_def)
  have "mset o1 = mset o2"
    using sets d set_eq_iff_mset_eq_distinct [of o1 o2] by simp
  then have perm: "mset (map ?t o1) = mset (map ?t o2)"
    by simp
  have "for_each life_rule (map ?t o1) ?g = for_each life_rule (map ?t o2) ?g"
  proof (rule for_each_permuted [where I = ?I])
    fix x s s' assume "?I s" "life_rule x s = Inr s'"
    then show "?I s'" using life_rule_length by simp
  next
    fix x y s
    assume x: "x \<in> set (map ?t o1)" and y: "y \<in> set (map ?t o1)" and ne: "x \<noteq> y" and s: "?I s"
    from x y ne have "fst x \<in> needs_update g" "fst y \<in> needs_update g" "fst x \<noteq> fst y"
      using sets by auto
    with inj have "slot (length (live g)) (fst x) \<noteq> slot (length (live g)) (fst y)"
      by (auto dest: inj_onD)
    with s show "rbind (life_rule x s) (life_rule y) = rbind (life_rule y s) (life_rule x)"
      using life_rule_commute by simp
  qed (use perm in simp_all)
  then show ?thesis
    by (simp add: update_gen_def snapshot_eq sets)
qed

text \<open>
  A generation in which the rule acts on one dirty index only does what the rule does at
  that index, in whatever order the dirty set is iterated.
\<close>

lemma update_gen_one_acts:
  assumes ord: "iterates ord (needs_update g)"
    and ok: "\<And>p. p \<in> needs_update g \<Longrightarrow>
        valid (length (live g)) p \<and> valid (length (neighbours g)) p"
    and q: "q \<in> needs_update g"
    and idle: "\<And>p. p \<in> needs_update g \<Longrightarrow> p \<noteq> q \<Longrightarrow>
        life_rule (p, live g ! sl (length (live g)) p,
                   neighbours g ! sl (length (neighbours g)) p) = Inr"
  shows "update_gen ord g =
     life_rule (q, live g ! sl (length (live g)) q, neighbours g ! sl (length (neighbours g)) q)
       (g\<lparr>needs_update := {}\<rparr>)"
proof -
  let ?t = "\<lambda>p. (p, live g ! sl (length (live g)) p, neighbours g ! sl (length (neighbours g)) p)"
  have sets: "set ord = needs_update g" and d: "distinct ord"
    using ord by (simp_all add: iterates_def)
  have snap: "snapshot g ord = Inr (map ?t ord)"
    using ok sets by (simp add: snapshot_eq)
  have "inj ?t" by (auto simp: inj_def)
  then have "distinct (map ?t ord)"
    using d by (simp add: distinct_map inj_on_def)
  moreover have "?t q \<in> set (map ?t ord)" using q sets by simp
  moreover have "life_rule x s = Inr s" if "x \<in> set (map ?t ord)" "x \<noteq> ?t q" for x s
  proof -
    from that obtain p where "p \<in> needs_update g" "x = ?t p" "p \<noteq> q"
      using sets by auto
    then show ?thesis using idle [of p] by simp
  qed
  ultimately have "for_each life_rule (map ?t ord) (g\<lparr>needs_update := {}\<rparr>) =
      life_rule (?t q) (g\<lparr>needs_update := {}\<rparr>)"
    by (rule for_each_one_acts)
  with snap show ?thesis by (simp add: update_gen_def)
qed

section \<open>Dead boards\<close>

text \<open>
  A generation on a board with no live slot and with the counts of the invariant changes
  nothing but the dirty set.
\<close>

lemma update_gen_all_dead:
  assumes w: "0 < w" and h: "0 < h" and wf: "consistent w h g" and dead: "True \<notin> set (live g)"
    and ord: "iterates ord (needs_update g)"
  shows "update_gen ord g = Inr (g\<lparr>needs_update := {}\<rparr>)"
proof -
  let ?L = "nat (cells w h)"
  let ?t = "\<lambda>p. (p, live g ! sl (length (live g)) p, neighbours g ! sl (length (neighbours g)) p)"
  have len: "length (live g) = ?L" "length (neighbours g) = ?L" "length (in_bounds g) = ?L"
    using wf by (simp_all add: consistent_def)
  have nolive: "\<not> live g ! k" if "k < ?L" for k
    using dead that len nth_mem [of k "live g"] by (metis (full_types))
  have dirty: "valid ?L p \<and> masked w h (int (sl ?L p))" if "p \<in> set ord" for p
    using wf ord that by (simp add: consistent_def iterates_def)
  have zero: "live_neighbours g k = 0" for k
    unfolding live_neighbours_def using nolive
    by (auto simp: filter_empty_conv len nat_less_iff)
  have triple: "?t p = (p, False, 0)" if "p \<in> set ord" for p
  proof -
    have "sl ?L p < ?L" using dirty [OF that] sl_less by blast
    moreover have "neighbours g ! nat (int (sl ?L p)) = int (live_neighbours g (int (sl ?L p)))"
      using wf dirty [OF that] unfolding consistent_def by blast
    ultimately show ?thesis using nolive zero by (simp add: len)
  qed
  have snap: "snapshot g ord = Inr (map ?t ord)"
    using dirty by (simp add: snapshot_eq len)
  have "for_each life_rule (map ?t ord) (g\<lparr>needs_update := {}\<rparr>) = Inr (g\<lparr>needs_update := {}\<rparr>)"
    by (rule for_each_noop) (auto simp: triple)
  with snap show ?thesis by (simp add: update_gen_def)
qed

lemma update_clean:
  "needs_update g = {} \<Longrightarrow> follows ords g \<Longrightarrow> update ords g = Inr g"
proof (induction ords)
  case Nil
  then show ?case by (simp add: update_def)
next
  case (Cons ord ords)
  then have "ord = []" by (simp add: iterates_def)
  then have "update_gen ord g = Inr g"
    using Cons.prems(1) by (simp add: update_gen_def)
  with Cons show ?case by (simp add: update_def)
qed

text \<open>
  Two boards on which a generation does work although the logical grid is dead: the 1 by
  1 board whose border slot 5 is alive, and the 2 by 2 board with no live slot and the
  count 3 at slot 9.
\<close>

lemma generation_border_slot_alive:
  assumes "iterates ord {- 5, - 4, - 3}"
  shows "update_gen ord
     (board_1x1 [False, False, False, False, False, True, False, False, False]
        [0, 0, 0, 0, 1, 0, 1, 0, 0] {- 5, - 4, - 3}) =
     Inr (board_1x1 (replicate 9 False) (replicate 9 0) {- 5, - 4, - 3})"
    (is "update_gen ord ?g = Inr ?g'")
proof -
  have o: "iterates ord (needs_update ?g)" using assms by (simp add: board_1x1_def)
  have "update_gen ord ?g =
     life_rule (- 4, live ?g ! sl (length (live ?g)) (- 4),
                neighbours ?g ! sl (length (neighbours ?g)) (- 4))
       (?g\<lparr>needs_update := {}\<rparr>)"
    by (rule update_gen_one_acts [OF o]) (auto simp: board_1x1_def valid_def sl_def life_rule_alt)
  also have "\<dots> = Inr ?g'"
    by code_simp
  finally show ?thesis .
qed

lemma generation_births_on_dead_board:
  assumes "iterates ord {- 7, - 5, - 4, 11, 12}"
  shows "update_gen ord
     (board_2x2 (replicate 16 False) ((replicate 16 0)[9 := 3]) {- 7, - 5, - 4, 11, 12}) =
     Inr (board_2x2 ((replicate 16 False)[9 := True])
            ((replicate 16 0)[5 := 1, 6 := 1, 9 := 3, 10 := 1, 12 := 1])
            {- 11, - 10, - 7, - 6, - 4})"
    (is "update_gen ord ?g = Inr ?g'")
proof -
  have o: "iterates ord (needs_update ?g)" using assms by (simp add: board_2x2_def)
  have "update_gen ord ?g =
     life_rule (- 7, live ?g ! sl (length (live ?g)) (- 7),
                neighbours ?g ! sl (length (neighbours ?g)) (- 7))
       (?g\<lparr>needs_update := {}\<rparr>)"
    by (rule update_gen_one_acts [OF o]) (auto simp: board_2x2_def valid_def sl_def life_rule_alt)
  also have "\<dots> = Inr ?g'"
    by code_simp
  finally show ?thesis .
qed

section \<open>Pasting\<close>

text \<open>
  \<open>paste\<close> as a sequence of \<open>set_target\<close> calls; a call on the border ring changes
  nothing, a call in the grid returns and changes \<open>live\<close> at its cell only.
\<close>

lemma paste_as_targets:
  "paste s x y g = for_each set_target (paste_targets s x y) g"
proof -
  have inner: "for_each set_target (map (\<lambda>(i, char). (x + int i, y + int j, char = CHR ''o'')) l) t =
        for_each (\<lambda>(i, char) g. set_cell (cell g (x + int i) (y + int j)) (char = CHR ''o'') g) l t"
    for j l t
    unfolding for_each_map
    by (rule arg_cong [where f = "\<lambda>f. for_each f l t"]) (auto simp: set_target_def fun_eq_iff)
  have "for_each (\<lambda>xs. for_each set_target xs)
          (map (\<lambda>(j, line). map (\<lambda>(i, char). (x + int i, y + int j, char = CHR ''o''))
                                     (enumerate 0 (strip line))) rows) t =
        for_each (\<lambda>(j, line).
         for_each (\<lambda>(i, char) g. set_cell (cell g (x + int i) (y + int j)) (char = CHR ''o'') g)
                  (enumerate 0 (strip line))) rows t" for rows t
    unfolding for_each_map
    by (rule arg_cong [where f = "\<lambda>f. for_each f rows t"]) (auto simp: inner fun_eq_iff)
  then show ?thesis
    by (simp add: paste_def paste_targets_def for_each_concat)
qed

lemma set_ring_noop:
  assumes w: "0 < w" and h: "0 < h" and wf: "consistent w h g"
    and near: "near_grid w h t" and out: "\<not> in_grid w h t"
  shows "set_target t g = Inr g"
proof -
  obtain a b v where t: "t = (a, b, v)" by (cases t) auto
  let ?k = "(w + 2) * (b + 1) + a + 1"
  have c: "cell g a b = ?k" using wf by (simp add: cell_def consistent_def)
  have k: "0 \<le> ?k" "?k < cells w h" "\<not> masked w h ?k"
    using ring_not_masked [OF w h near [unfolded t] out [unfolded t]] by simp_all
  have len: "length (live g) = nat (cells w h)" "length (in_bounds g) = nat (cells w h)"
    using wf by (simp_all add: consistent_def)
  have v: "valid (nat (cells w h)) ?k" using k by (simp add: valid_def)
  have s: "sl (nat (cells w h)) ?k = nat ?k" using k by (simp add: sl_def)
  have "\<not> in_bounds g ! nat ?k"
    using consistent_in_bounds [OF wf k(1,2)] k(3) by simp
  then show ?thesis
    unfolding t set_target_def
    by (simp add: c set_cell_alt set_raises_def set_acts_def len v s)
qed

lemma set_grid_step:
  assumes w: "0 < w" and h: "0 < h" and wf: "consistent w h g" and t: "in_grid w h t"
  shows "\<exists>g'. set_target t g = Inr g' \<and> consistent w h g' \<and>
           (\<forall>k. 0 \<le> k \<and> k < cells w h \<and> \<not> interior w h k \<longrightarrow> live g' ! nat k = live g ! nat k)"
proof -
  obtain a b v where abv: "t = (a, b, v)" by (cases t) auto
  let ?p = "(w + 2) * (b + 1) + a + 1"
  have c: "cell g a b = ?p" using wf by (simp add: cell_def consistent_def)
  have i: "interior w h ?p"
    using t unfolding abv in_grid_def by (auto intro: interior_cell)
  obtain g' where g': "set_cell ?p v g = Inr g'"
    using set_interior_returns [OF w h wf i, of v] by blast
  have wf': "consistent w h g'" using set_consistent [OF w h wf g'] .
  have p0: "0 \<le> ?p" using interior_bounds [OF w h i] w by simp
  have len: "length (live g) = nat (cells w h)" using wf by (simp add: consistent_def)
  have "live g' ! nat k = live g ! nat k" if "0 \<le> k" "\<not> interior w h k" for k
  proof -
    have "k \<noteq> ?p" using that(2) i by auto
    then have "nat k \<noteq> nat ?p" using that(1) p0 by simp
    then show ?thesis
      using g' p0 by (auto simp: set_cell_alt set_effect_def sl_def split: if_splits)
  qed
  with g' wf' show ?thesis
    by (auto simp: abv set_target_def c)
qed

section \<open>The blinker\<close>

text \<open>
  The blinker on the 20 by 20 board and its two generations, each in one fixed order.
\<close>

lemma blinker_run:
  "\<exists>gb gv gh.
     blinker_board = Inr gb \<and>
     needs_update gb = {115, 116, 117, 118, 119, 137, 138, 139, 140, 141, 159, 160, 161, 162, 163} \<and>
     update_gen [115, 116, 117, 118, 119, 137, 138, 139, 140, 141, 159, 160, 161, 162, 163] gb = Inr gv \<and>
     needs_update gv = {94, 95, 96, 115, 116, 117, 118, 119, 137, 138, 139, 140, 141, 159,
                        160, 161, 162, 163, 182, 183, 184} \<and>
     update_gen [94, 95, 96, 115, 116, 117, 118, 119, 137, 138, 139, 140, 141, 159,
                 160, 161, 162, 163, 182, 183, 184] gv = Inr gh \<and>
     length (live gb) = 484 \<and> length (live gv) = 484 \<and> width gb = 20 \<and>
     live gb = (replicate 484 False)[138 := True, 139 := True, 140 := True] \<and>
     live gv = (replicate 484 False)[117 := True, 139 := True, 161 := True] \<and>
     live gh = (replicate 484 False)[138 := True, 139 := True, 140 := True]"
proof -
  define g0 where "g0 = \<lparr>width = 20, height = 20,
         live = replicate (nat (cells 20 20)) False,
         in_bounds = map (\<lambda>k. masked 20 20 (int k)) [0..<nat (cells 20 20)],
         neighbours = replicate (nat (cells 20 20)) 0,
         neighbourhood = offsets 20,
         needs_update = {}\<rparr>"
  define gb where "gb = set_effect (set_effect (set_effect g0 138 True) 139 True) 140 True"
  define gv where "gv = set_effect (set_effect (set_effect (set_effect
      (gb\<lparr>needs_update := {}\<rparr>) 117 True) 138 False) 140 False) 161 True"
  define gh where "gh = set_effect (set_effect (set_effect (set_effect
      (gv\<lparr>needs_update := {}\<rparr>) 117 False) 138 True) 140 True) 161 False"
  have c: "cells 20 20 = 484" by (simp add: cells_def)
  have L: "Life 20 20 = Inr g0" unfolding g0_def by (rule Life_eq) simp_all
  have s0: "shape 20 20 g0" by (simp add: shape_def g0_def)
  have base: "live g0 ! k = False" "neighbours g0 ! k = 0" if "k < 484" for k
    using that by (simp_all add: g0_def c)
  have nu0: "needs_update g0 = {}" "width g0 = 20" by (simp_all add: g0_def)
  have len: "length (live g) = 484" if "shape 20 20 g" for g
    using that by (simp add: shape_def c)
  have sc: "set_cell p v g = (if live g ! nat p = v then Inr g else Inr (set_effect g p v))"
    if "shape 20 20 g" "inner 20 20 p" for p v g
    using set_cell_inner [of 20 20 g p v] that by simp
  have lv: "live (set_effect g p v) ! k = (if k = nat p then v else live g ! k)"
    if "shape 20 20 g" "0 \<le> p" "k < 484" for g p v k
    using live_set_effect [of p k g v] that len by simp
  have nb: "neighbours (set_effect g p v) ! k =
         neighbours g ! k + (if int k - p \<in> {- 23, - 1, 21, - 22, 22, - 21, 1, 23}
                             then (if v then 1 else - 1) else 0)"
    if "shape 20 20 g" "inner 20 20 p" "k < 484" for g p v k
    using neighbours_set_effect [of 20 20 g p k v] that by (simp add: c offsets_eq)
  have nu: "needs_update (set_effect g p v) =
         insert p (needs_update g) \<union> (\<lambda>d. d + p) ` {- 23, - 1, 21, - 22, 22, - 21, 1, 23}"
    if "shape 20 20 g" "inner 20 20 p" for g p v
    using dirty_set_effect [of 20 20 g p v] that by (simp add: offsets_eq)
  have sb: "shape 20 20 gb" by (simp add: gb_def s0)
  have sv: "shape 20 20 gv" by (simp add: gv_def sb)
  have 1: "blinker_board = Inr gb"
    by (simp add: blinker_board_def L set_calls_def cell_def nu0 gb_def sc lv base s0 inner_def)
  have 2: "needs_update gb = {115, 116, 117, 118, 119, 137, 138, 139, 140, 141, 159, 160, 161, 162, 163}"
    by (simp add: gb_def nu s0 inner_def nu0) auto
  have lenn: "length (neighbours g) = 484" if "shape 20 20 g" for g
    using that by (simp add: shape_def c)
  have 3: "snapshot gb [115, 116, 117, 118, 119, 137, 138, 139, 140, 141, 159, 160, 161, 162, 163] =
     Inr [(115, False, 1), (116, False, 2), (117, False, 3), (118, False, 2), (119, False, 1),
          (137, False, 1), (138, True, 1), (139, True, 2), (140, True, 1), (141, False, 1),
          (159, False, 1), (160, False, 2), (161, False, 3), (162, False, 2), (163, False, 1)]"
    unfolding snapshot_eq len [OF sb] lenn [OF sb]
    by (simp add: valid_def sl_def gb_def lv nb base s0 inner_def)
  have 4: "for_each life_rule
         [(115, False, 1), (116, False, 2), (117, False, 3), (118, False, 2), (119, False, 1),
          (137, False, 1), (138, True, 1), (139, True, 2), (140, True, 1), (141, False, 1),
          (159, False, 1), (160, False, 2), (161, False, 3), (162, False, 2), (163, False, 1)]
         (gb\<lparr>needs_update := {}\<rparr>) = Inr gv"
    by (simp add: gv_def sc lv base sb inner_def gb_def s0)
  have 5: "update_gen [115, 116, 117, 118, 119, 137, 138, 139, 140, 141, 159, 160, 161, 162, 163] gb = Inr gv"
    unfolding update_gen_def 3 rbind_Inr 4 ..
  have sg: "shape 20 20 (gb\<lparr>needs_update := {}\<rparr>)" using sb by simp
  have 6: "needs_update gv = {94, 95, 96, 115, 116, 117, 118, 119, 137, 138, 139, 140, 141, 159,
                        160, 161, 162, 163, 182, 183, 184}"
    by (simp add: gv_def nu sb inner_def) auto
  have 7: "snapshot gv [94, 95, 96, 115, 116, 117, 118, 119, 137, 138, 139, 140, 141, 159,
                 160, 161, 162, 163, 182, 183, 184] =
     Inr [(94, False, 1), (95, False, 1), (96, False, 1),
          (115, False, 0), (116, False, 2), (117, True, 1), (118, False, 2), (119, False, 0),
          (137, False, 0), (138, False, 3), (139, True, 2), (140, False, 3), (141, False, 0),
          (159, False, 0), (160, False, 2), (161, True, 1), (162, False, 2), (163, False, 0),
          (182, False, 1), (183, False, 1), (184, False, 1)]"
    unfolding snapshot_eq len [OF sv] lenn [OF sv]
    by (simp add: valid_def sl_def gv_def gb_def lv nb base s0 inner_def)
  have 8: "for_each life_rule
         [(94, False, 1), (95, False, 1), (96, False, 1),
          (115, False, 0), (116, False, 2), (117, True, 1), (118, False, 2), (119, False, 0),
          (137, False, 0), (138, False, 3), (139, True, 2), (140, False, 3), (141, False, 0),
          (159, False, 0), (160, False, 2), (161, True, 1), (162, False, 2), (163, False, 0),
          (182, False, 1), (183, False, 1), (184, False, 1)]
         (gv\<lparr>needs_update := {}\<rparr>) = Inr gh"
    by (simp add: gh_def sc lv base sv inner_def gv_def gb_def s0)
  have 9: "update_gen [94, 95, 96, 115, 116, 117, 118, 119, 137, 138, 139, 140, 141, 159,
                 160, 161, 162, 163, 182, 183, 184] gv = Inr gh"
    unfolding update_gen_def 7 rbind_Inr 8 ..
  have sh: "shape 20 20 gh" by (simp add: gh_def sv)
  have 10: "live gb = (replicate 484 False)[138 := True, 139 := True, 140 := True]"
    by (rule nth_equalityI) (simp_all add: len sb, simp add: gb_def lv s0 base nth_list_update)
  have 11: "live gv = (replicate 484 False)[117 := True, 139 := True, 161 := True]"
    by (rule nth_equalityI)
       (simp_all add: len sv, auto simp: gv_def gb_def lv s0 base nth_list_update)
  have 12: "live gh = (replicate 484 False)[138 := True, 139 := True, 140 := True]"
    by (rule nth_equalityI)
       (simp_all add: len sh, auto simp: gh_def gv_def gb_def lv s0 base nth_list_update)
  have 13: "width gb = 20" using sb by (simp add: shape_def)
  from 1 2 5 6 9 10 11 12 13 len [OF sb] len [OF sv] show ?thesis by blast
qed

section \<open>The claims\<close>

text \<open>
  C1 (neighbour-count invariant). The claim fails on the code, through the defect of the
  mask shown under C3. On \<open>Life(2, 2)\<close> the slots 11 and 12 are border slots that the
  mask leaves in bounds. The call \<open>set(-4, True)\<close>, whose subscript names slot 12,
  returns; after it \<open>in_bounds[11]\<close> is true and \<open>neighbours[11]\<close> is 1, while the
  slots around slot 11 in the padded grid, 6, 7, 10, 14 and 15, are all dead: the loop of
  \<open>set\<close> reached slot 11 as the subscript \<open>-4 - 1\<close>, one before slot 12 in the array
  and not beside it in the grid. The call \<open>set(12, True)\<close> raises \<open>IndexError\<close> at
  \<open>in_bounds[16]\<close>, after it has stored \<open>live[12] = True\<close> and added 1 to
  \<open>neighbours[11]\<close> alone; in the object it leaves, the interior slot 9 has
  \<open>neighbours[9] = 0\<close> and one live in-bounds slot, 12, among the eight around it.
\<close>

theorem neighbour_count_miscounts:
  "Life 2 2 = Inr (board_2x2 (replicate 16 False) (replicate 16 0) {}) \<and>
   border_ring 2 2 11 \<and> border_ring 2 2 12 \<and>
   set_cell (- 4) True (board_2x2 (replicate 16 False) (replicate 16 0) {}) =
     Inr (board_2x2 ((replicate 16 False)[12 := True]) ((replicate 16 0)[9 := 1, 11 := 1])
            {- 7, - 5, - 4}) \<and>
   in_bounds (board_2x2 ((replicate 16 False)[12 := True]) ((replicate 16 0)[9 := 1, 11 := 1])
            {- 7, - 5, - 4}) ! 11 \<and>
   neighbours (board_2x2 ((replicate 16 False)[12 := True]) ((replicate 16 0)[9 := 1, 11 := 1])
            {- 7, - 5, - 4}) ! 11 = 1 \<and>
   surrounding 2 2 11 = [6, 7, 10, 14, 15] \<and>
   live_around (board_2x2 ((replicate 16 False)[12 := True]) ((replicate 16 0)[9 := 1, 11 := 1])
            {- 7, - 5, - 4}) 11 = 0 \<and>
   set_obj 12 True (board_2x2 (replicate 16 False) (replicate 16 0) {}) =
     (board_2x2 ((replicate 16 False)[12 := True]) ((replicate 16 0)[11 := 1]) {11, 12},
      Some IndexError) \<and>
   interior 2 2 9 \<and>
   in_bounds (board_2x2 ((replicate 16 False)[12 := True]) ((replicate 16 0)[11 := 1])
            {11, 12}) ! 9 \<and>
   neighbours (board_2x2 ((replicate 16 False)[12 := True]) ((replicate 16 0)[11 := 1])
            {11, 12}) ! 9 = 0 \<and>
   surrounding 2 2 9 = [4, 5, 6, 8, 10, 12, 13, 14] \<and>
   live_around (board_2x2 ((replicate 16 False)[12 := True]) ((replicate 16 0)[11 := 1])
            {11, 12}) 9 = 1"
  by code_simp

text \<open>
  C2 (border immutability). The claim fails on the code, through the defect of the mask
  shown under C3: on \<open>Life(1, 1)\<close> slot 5 lies in the border ring (padded row 1,
  padded column \<open>width + 1\<close>), yet \<open>set(5, True)\<close> is no silent no-op, it raises
  \<open>IndexError\<close> (after it has stored \<open>live[5] = True\<close>); and \<open>set(-4, True)\<close>, the
  same slot through a negative subscript, returns with the border slot alive.
\<close>

theorem set_border_slot_raises:
  "rbind (Life 1 1) (set_cell 5 True) = Inl IndexError \<and> border_ring 1 1 5 \<and>
   rbind (Life 1 1) (set_cell (- 4) True) =
     Inr \<lparr>width = 1, height = 1,
          live = [False, False, False, False, False, True, False, False, False],
          in_bounds = [False, False, False, False, True, True, True, False, False],
          neighbours = [0, 0, 0, 0, 1, 0, 1, 0, 0],
          neighbourhood = [- 4, - 1, 2, - 3, 3, - 2, 1, 4],
          needs_update = {- 5, - 4, - 3}\<rparr>"
  by code_simp

text \<open>
  C3 (construction mask). The claim fails on the code: the two loops of \<open>__init__\<close>
  leave \<open>in_bounds\<close> true on two slots of the border ring, the right border of the last
  interior row, \<open>(height + 1) * (width + 2) - 1\<close>, and the bottom left corner,
  \<open>(height + 1) * (width + 2)\<close>. On \<open>Life(1, 1)\<close> these are the slots 5 and 6.
\<close>

theorem mask_misses_two_border_slots:
  "Life 1 1 =
     Inr \<lparr>width = 1, height = 1,
          live = [False, False, False, False, False, False, False, False, False],
          in_bounds = [False, False, False, False, True, True, True, False, False],
          neighbours = [0, 0, 0, 0, 0, 0, 0, 0, 0],
          neighbourhood = [- 4, - 1, 2, - 3, 3, - 2, 1, 4],
          needs_update = {}\<rparr> \<and>
   border_ring 1 1 5 \<and> border_ring 1 1 6 \<and> \<not> interior 1 1 5 \<and> \<not> interior 1 1 6"
  by code_simp

text \<open>
  C4 (blinker, period 2). On the 20 by 20 board, starting from \<open>Life(20, 20)\<close> with all
  cells dead, the calls \<open>set(cell(5, 5), True)\<close>, \<open>set(cell(6, 5), True)\<close>,
  \<open>set(cell(7, 5), True)\<close> return a state whose live slots are exactly 138, 139, 140,
  the cells \<open>(5, 5)\<close>, \<open>(6, 5)\<close>, \<open>(7, 5)\<close>. From it, whatever the orders in which the
  two generations iterate their dirty sets, one \<open>update\<close> returns a state whose live
  slots are exactly 117, 139, 161, the cells \<open>(6, 4)\<close>, \<open>(6, 5)\<close>, \<open>(6, 6)\<close>, and a
  second \<open>update\<close> returns a state whose live slots are again exactly 138, 139, 140.
\<close>

theorem blinker_period_two:
  "\<exists>g. blinker_board = Inr g \<and>
       cell g 5 5 = 138 \<and> cell g 6 5 = 139 \<and> cell g 7 5 = 140 \<and>
       cell g 6 4 = 117 \<and> cell g 6 6 = 161 \<and>
       live g = (replicate 484 False)[138 := True, 139 := True, 140 := True] \<and>
       (\<forall>o1 o2. follows [o1, o2] g \<longrightarrow>
          (\<exists>g1 g2. update [o1] g = Inr g1 \<and>
                   live g1 = (replicate 484 False)[117 := True, 139 := True, 161 := True] \<and>
                   update [o1, o2] g = Inr g2 \<and>
                   live g2 = (replicate 484 False)[138 := True, 139 := True, 140 := True]))"
proof -
  let ?c1 = "[115, 116, 117, 118, 119, 137, 138, 139, 140, 141, 159, 160, 161, 162, 163] :: int list"
  let ?c2 = "[94, 95, 96, 115, 116, 117, 118, 119, 137, 138, 139, 140, 141, 159,
              160, 161, 162, 163, 182, 183, 184] :: int list"
  obtain gb gv gh where b: "blinker_board = Inr gb"
    and nb: "needs_update gb = set ?c1" and u1: "update_gen ?c1 gb = Inr gv"
    and nv: "needs_update gv = set ?c2" and u2: "update_gen ?c2 gv = Inr gh"
    and len: "length (live gb) = 484" "length (live gv) = 484" and wd: "width gb = 20"
    and lb: "live gb = (replicate 484 False)[138 := True, 139 := True, 140 := True]"
    and lv: "live gv = (replicate 484 False)[117 := True, 139 := True, 161 := True]"
    and lh: "live gh = (replicate 484 False)[138 := True, 139 := True, 140 := True]"
    using blinker_run by auto
  have i1: "inj_on (slot (length (live gb))) (needs_update gb)"
    unfolding nb len by (rule inj_on_slot) auto
  have i2: "inj_on (slot (length (live gv))) (needs_update gv)"
    unfolding nv len by (rule inj_on_slot) auto
  have c1: "iterates ?c1 (needs_update gb)" unfolding nb by (simp add: iterates_def)
  have c2: "iterates ?c2 (needs_update gv)" unfolding nv by (simp add: iterates_def)
  have "\<exists>g1 g2. update [o1] gb = Inr g1 \<and> live g1 = (replicate 484 False)[117 := True, 139 := True, 161 := True] \<and>
                 update [o1, o2] gb = Inr g2 \<and>
                 live g2 = (replicate 484 False)[138 := True, 139 := True, 140 := True]"
    if f: "follows [o1, o2] gb" for o1 o2
  proof -
    from f have o1: "iterates o1 (needs_update gb)" by simp
    have e1: "update_gen o1 gb = Inr gv"
      using update_gen_order [OF o1 c1 i1] u1 by simp
    with f have o2: "iterates o2 (needs_update gv)" by simp
    have e2: "update_gen o2 gv = Inr gh"
      using update_gen_order [OF o2 c2 i2] u2 by simp
    from e1 e2 lv lh show ?thesis by (simp add: update_def)
  qed
  moreover have "cell gb 5 5 = 138" "cell gb 6 5 = 139" "cell gb 7 5 = 140"
    "cell gb 6 4 = 117" "cell gb 6 6 = 161"
    using wd by (simp_all add: cell_def)
  ultimately show ?thesis using b lb by blast
qed

theorem blinker_period_two_witness:
  "\<exists>g g1 g2. blinker_board = Inr g \<and>
     follows [[163, 162, 161, 160, 159, 141, 140, 139, 138, 137, 119, 118, 117, 116, 115],
              [94, 95, 96, 115, 116, 117, 118, 119, 137, 138, 139, 140, 141, 159,
               160, 161, 162, 163, 182, 183, 184]] g \<and>
     update [[163, 162, 161, 160, 159, 141, 140, 139, 138, 137, 119, 118, 117, 116, 115]] g = Inr g1 \<and>
     live g1 = (replicate 484 False)[117 := True, 139 := True, 161 := True] \<and>
     update [[163, 162, 161, 160, 159, 141, 140, 139, 138, 137, 119, 118, 117, 116, 115],
              [94, 95, 96, 115, 116, 117, 118, 119, 137, 138, 139, 140, 141, 159,
               160, 161, 162, 163, 182, 183, 184]] g = Inr g2 \<and>
     live g2 = (replicate 484 False)[138 := True, 139 := True, 140 := True]"
proof -
  let ?r1 = "[163, 162, 161, 160, 159, 141, 140, 139, 138, 137, 119, 118, 117, 116, 115] :: int list"
  let ?c1 = "[115, 116, 117, 118, 119, 137, 138, 139, 140, 141, 159, 160, 161, 162, 163] :: int list"
  let ?c2 = "[94, 95, 96, 115, 116, 117, 118, 119, 137, 138, 139, 140, 141, 159,
              160, 161, 162, 163, 182, 183, 184] :: int list"
  obtain gb gv gh where b: "blinker_board = Inr gb"
    and nb: "needs_update gb = set ?c1" and u1: "update_gen ?c1 gb = Inr gv"
    and nv: "needs_update gv = set ?c2"
    and len: "length (live gb) = 484"
    using blinker_run by auto
  have i1: "inj_on (slot (length (live gb))) (needs_update gb)"
    unfolding nb len by (rule inj_on_slot) auto
  have c1: "iterates ?c1 (needs_update gb)" unfolding nb by (simp add: iterates_def)
  have r1: "iterates ?r1 (needs_update gb)" unfolding nb by (auto simp: iterates_def)
  have e1: "update_gen ?r1 gb = Inr gv"
    using update_gen_order [OF r1 c1 i1] u1 by simp
  have c2: "iterates ?c2 (needs_update gv)" unfolding nv by (simp add: iterates_def)
  have f: "follows [?r1, ?c2] gb"
    using r1 e1 c2 by (simp split: sum.splits)
  from blinker_period_two obtain g where g: "blinker_board = Inr g"
    and all: "\<forall>o1 o2. follows [o1, o2] g \<longrightarrow>
          (\<exists>g1 g2. update [o1] g = Inr g1 \<and>
                   live g1 = (replicate 484 False)[117 := True, 139 := True, 161 := True] \<and>
                   update [o1, o2] g = Inr g2 \<and>
                   live g2 = (replicate 484 False)[138 := True, 139 := True, 140 := True])"
    by blast
  have "Inr g = (Inr gb :: error + life)" using g b by (rule trans [OF sym])
  then have "g = gb" by simp
  with f all g show ?thesis by blast
qed

text \<open>
  C5 (construction errors), as stated, fails: the code has no dimension check and no
  \<open>InvalidDimension\<close> error, and \<open>Life(0, 0)\<close> returns an engine.
\<close>

theorem construction_accepts_zero_counterexample:
  "Life 0 0 =
     Inr \<lparr>width = 0, height = 0,
          live = [False, False, False, False],
          in_bounds = [False, False, True, False],
          neighbours = [0, 0, 0, 0],
          neighbourhood = [- 3, - 1, 1, - 2, 2, - 1, 1, 3],
          needs_update = {}\<rparr>"
  by code_simp

text \<open>
  C5 as amended. No dimension is checked. With \<open>cells = (width + 2) * (height + 2)\<close>,
  \<open>maxsize\<close> for \<open>sys.maxsize\<close> and \<open>fits\<close> for the lists that can be allocated,
  construction fails in three ways and no other: with \<open>OverflowError\<close> exactly when
  \<open>cells\<close> lies outside \<open>[-maxsize - 1, maxsize]\<close>; with \<open>MemoryError\<close> exactly when
  \<open>cells\<close> is positive and at most \<open>maxsize\<close> and lists of \<open>cells\<close> entries cannot be
  allocated; with \<open>IndexError\<close> exactly when \<open>cells\<close> lies in \<open>[-maxsize - 1, maxsize]\<close>
  and either \<open>width \<ge> -1\<close> and \<open>height \<le> -2\<close>, or \<open>width \<le> -2\<close> and \<open>height \<ge> 1\<close>
  (the arrays are empty then, and a loop of the mask runs). No engine is produced in
  these cases; in every other case, \<open>width = 0\<close> and \<open>height = 0\<close> among them, an
  engine is produced.
\<close>

theorem construction_failure:
  "(Life_init maxsize fits w h = Inl OverflowError) =
     (cells w h < - maxsize - 1 \<or> maxsize < cells w h) \<and>
   (Life_init maxsize fits w h = Inl MemoryError) =
     (0 < cells w h \<and> cells w h \<le> maxsize \<and> \<not> fits (cells w h)) \<and>
   (Life_init maxsize fits w h = Inl IndexError) =
     (- maxsize - 1 \<le> cells w h \<and> cells w h \<le> maxsize \<and>
      ((- 1 \<le> w \<and> h \<le> - 2) \<or> (w \<le> - 2 \<and> 1 \<le> h))) \<and>
   (\<exists>g. Life_init maxsize fits w h = Inr g) =
     (- maxsize - 1 \<le> cells w h \<and> cells w h \<le> maxsize \<and>
      (cells w h \<le> 0 \<or> fits (cells w h)) \<and>
      \<not> ((- 1 \<le> w \<and> h \<le> - 2) \<or> (w \<le> - 2 \<and> 1 \<le> h)))"
proof -
  let ?R = "(- 1 \<le> w \<and> h \<le> - 2) \<or> (w \<le> - 2 \<and> 1 \<le> h)"
  have neg: "cells w h \<le> 0" if "?R"
    using that by (auto simp: cells_def mult_le_0_iff)
  have fails: "Life w h = Inl IndexError \<longleftrightarrow> ?R" by (rule Life_fails_iff)
  have returns: "(\<exists>g. Life w h = Inr g) \<longleftrightarrow> \<not> ?R" by (rule Life_returns_iff)
  have other: "Life w h \<noteq> Inl OverflowError" "Life w h \<noteq> Inl MemoryError"
    using Life_error [of w h] by auto
  show ?thesis
    using neg fails returns other unfolding Life_init_eq
    by (auto split: if_splits)
qed

text \<open>
  C6 (paste clipping), as stated, fails. \<open>paste\<close> checks no coordinate: it computes
  \<open>cell(x + i, y + j)\<close> and calls \<open>set\<close>, whose only guard is \<open>in_bounds\<close>. A target
  far outside the grid gives a subscript outside the arrays and \<open>IndexError\<close>
  (\<open>paste('o', 5, 0)\<close> on a 1 by 1 board); a target two columns right of the grid gives
  the subscript of a cell of the next row, which is set alive (\<open>paste('o', 4, 0)\<close> on a
  2 by 2 board sets the cell \<open>(0, 1)\<close>, slot 9).
\<close>

theorem paste_not_clipped_counterexample:
  "rbind (Life 1 1) (paste ''o'' 5 0) = Inl IndexError \<and>
   \<not> in_grid 2 2 (4, 0, True) \<and>
   rbind (Life 2 2) (paste ''o'' 4 0) =
     Inr (board_2x2 ((replicate 16 False)[9 := True])
            ((replicate 16 0)[5 := 1, 6 := 1, 10 := 1, 12 := 1]) {5, 6, 9, 10, 12})"
  by code_simp

text \<open>
  C6 as amended: what the one-cell border absorbs. For \<open>w > 0\<close>, \<open>h > 0\<close>, a reachable
  state, and a pattern and origin such that every character's target \<open>(x + i, y + j)\<close>
  lies in the grid or in the border ring around it (\<open>-1 \<le> x + i \<le> w\<close>,
  \<open>-1 \<le> y + j \<le> h\<close>), the ring positions \<open>(w, h - 1)\<close> and \<open>(-1, h)\<close> apart (the two
  slots of C3, about which nothing is said): \<open>paste\<close> returns; its result is the result
  of setting the in-grid characters alone, so that a character whose target is outside
  the grid changes nothing and adds nothing to the dirty set; and every slot outside the
  logical grid keeps its \<open>live\<close> value.
\<close>

theorem paste_clips_ring:
  assumes "0 < w" and "0 < h" and "reachable w h g"
    and "\<forall>t\<in>set (paste_targets s x y). near_grid w h t"
  shows "\<exists>g'. paste s x y g = Inr g' \<and>
           for_each set_target (filter (in_grid w h) (paste_targets s x y)) g = Inr g' \<and>
           (\<forall>k. 0 \<le> k \<and> k < cells w h \<and> \<not> interior w h k \<longrightarrow> live g' ! nat k = live g ! nat k)"
proof -
  have w: "0 < w" and h: "0 < h" by fact+
  have wf: "consistent w h g" using reachable_consistent assms(1,2,3) by blast
  have near: "\<forall>t\<in>set (paste_targets s x y). near_grid w h t" by fact
  let ?ts = "paste_targets s x y"
  let ?I = "\<lambda>t. consistent w h t \<and>
      (\<forall>k. 0 \<le> k \<and> k < cells w h \<and> \<not> interior w h k \<longrightarrow> live t ! nat k = live g ! nat k)"
  have "for_each set_target ?ts g = for_each set_target (filter (in_grid w h) ?ts) g"
  proof (rule for_each_filter_noop [where I = "consistent w h"])
    fix t u assume "consistent w h u" "t \<in> set ?ts" "\<not> in_grid w h t"
    then show "set_target t u = Inr u"
      using set_ring_noop [OF w h] near by blast
  next
    fix t u u' assume "consistent w h u" "set_target t u = Inr u'"
    then show "consistent w h u'"
      using set_consistent [OF w h] by (cases t) (auto simp: set_target_def)
  qed (rule wf)
  moreover have "\<exists>g'. for_each set_target (filter (in_grid w h) ?ts) g = Inr g' \<and> ?I g'"
  proof (rule for_each_returns [where I = ?I])
    fix t u assume u: "?I u" and "t \<in> set (filter (in_grid w h) ?ts)"
    then have "in_grid w h t" by simp
    from set_grid_step [OF w h _ this, of u] u show "\<exists>u'. set_target t u = Inr u' \<and> ?I u'"
      by auto
  qed (use wf in simp)
  ultimately show ?thesis
    by (auto simp: paste_as_targets)
qed

theorem paste_clips_ring_witness:
  "reachable 2 2 (board_2x2 (replicate 16 False) (replicate 16 0) {}) \<and>
   paste_targets (''oo'' @ [CHR 0x0A] @ ''oo'') 1 (- 1) =
     [(1, - 1, True), (2, - 1, True), (1, 0, True), (2, 0, True)] \<and>
   filter (in_grid 2 2) (paste_targets (''oo'' @ [CHR 0x0A] @ ''oo'') 1 (- 1)) = [(1, 0, True)] \<and>
   paste (''oo'' @ [CHR 0x0A] @ ''oo'') 1 (- 1) (board_2x2 (replicate 16 False) (replicate 16 0) {}) =
     Inr (board_2x2 ((replicate 16 False)[6 := True])
            ((replicate 16 0)[5 := 1, 9 := 1, 10 := 1, 11 := 1]) {5, 6, 9, 10, 11})"
    (is "reachable 2 2 ?g \<and> ?ts = _ \<and> _ \<and> _")
proof -
  have "Life 2 2 = Inr ?g" by code_simp
  then have r: "reachable 2 2 ?g" by (rule constructed)
  have ts: "?ts = [(1, - 1, True), (2, - 1, True), (1, 0, True), (2, 0, True)]"
    by code_simp
  have n: "\<forall>t\<in>set ?ts. near_grid 2 2 t"
    unfolding ts by (simp add: near_grid_def)
  have f: "filter (in_grid 2 2) ?ts = [(1, 0, True)]"
    unfolding ts by (simp add: in_grid_def)
  have "for_each set_target [(1, 0, True)] ?g =
     Inr (board_2x2 ((replicate 16 False)[6 := True])
            ((replicate 16 0)[5 := 1, 9 := 1, 10 := 1, 11 := 1]) {5, 6, 9, 10, 11})"
    by code_simp
  with paste_clips_ring [OF _ _ r n] r ts f show ?thesis
    by auto
qed

text \<open>
  C7 (idempotence of \<open>set\<close>). For every state, every index \<open>i\<close> and every value
  \<open>v\<close>, calling \<open>set(i, v)\<close> twice in succession gives exactly what one call gives:
  the same \<open>live\<close>, \<open>neighbours\<close> and \<open>needs_update\<close> when the call returns, the same
  exception when it raises. This covers the reachable states and the in-bounds cells of
  the claim.
\<close>

theorem set_idempotent:
  "rbind (set_cell i v g) (set_cell i v) = set_cell i v g"
proof (cases "set_cell i v g")
  case (Inl e)
  then show ?thesis by simp
next
  case (Inr g')
  then have "set_cell i v g' = Inr g'"
    by (auto simp: set_cell_eq sl_less split: if_splits)
  with Inr show ?thesis by simp
qed

text \<open>
  C8 (quiescence). The claim fails on the code, through the defect of the mask shown
  under C3. After \<open>Life(1, 1)\<close> and \<open>set(-4, True)\<close>, whose subscript names the border
  slot 5, the one cell of the logical grid, slot 4, is dead; the generation of \<open>update\<close>,
  in whatever order it iterates the dirty set, kills slot 5 and leaves
  \<open>needs_update = {-5, -4, -3}\<close>, which is not empty. On \<open>Life(2, 2)\<close>, three rounds of
  \<open>set(-4, True)\<close>, which returns, and \<open>set(12, False)\<close>, which raises \<open>IndexError\<close>
  after it has stored \<open>live[12] = False\<close> and before it reaches slot 9, leave a board
  with no live slot at all and \<open>neighbours[9] = 3\<close>; the generation of \<open>update\<close>, in
  whatever order, then sets slot 9, the cell \<open>(0, 1)\<close>, alive, and leaves a dirty set
  that is not empty.
\<close>

theorem dead_board_not_quiescent:
  "rbind (Life 1 1) (set_cell (- 4) True) =
     Inr (board_1x1 [False, False, False, False, False, True, False, False, False]
            [0, 0, 0, 0, 1, 0, 1, 0, 0] {- 5, - 4, - 3}) \<and>
   filter (interior 1 1) (range_py (cells 1 1)) = [4] \<and>
   (\<forall>ord. iterates ord {- 5, - 4, - 3} \<longrightarrow>
      update [ord] (board_1x1 [False, False, False, False, False, True, False, False, False]
                      [0, 0, 0, 0, 1, 0, 1, 0, 0] {- 5, - 4, - 3}) =
        Inr (board_1x1 (replicate 9 False) (replicate 9 0) {- 5, - 4, - 3})) \<and>
   Life 2 2 = Inr (board_2x2 (replicate 16 False) (replicate 16 0) {}) \<and>
   set_attempts [(- 4, True), (12, False), (- 4, True), (12, False), (- 4, True), (12, False)]
       (board_2x2 (replicate 16 False) (replicate 16 0) {}) =
     board_2x2 (replicate 16 False) ((replicate 16 0)[9 := 3]) {- 7, - 5, - 4, 11, 12} \<and>
   (\<forall>ord. iterates ord {- 7, - 5, - 4, 11, 12} \<longrightarrow>
      update [ord] (board_2x2 (replicate 16 False) ((replicate 16 0)[9 := 3])
                      {- 7, - 5, - 4, 11, 12}) =
        Inr (board_2x2 ((replicate 16 False)[9 := True])
               ((replicate 16 0)[5 := 1, 6 := 1, 9 := 3, 10 := 1, 12 := 1])
               {- 11, - 10, - 7, - 6, - 4}))"
proof -
  have "rbind (Life 1 1) (set_cell (- 4) True) =
     Inr (board_1x1 [False, False, False, False, False, True, False, False, False]
            [0, 0, 0, 0, 1, 0, 1, 0, 0] {- 5, - 4, - 3})"
    by code_simp
  moreover have "filter (interior 1 1) (range_py (cells 1 1)) = [4]"
    by code_simp
  moreover have "Life 2 2 = Inr (board_2x2 (replicate 16 False) (replicate 16 0) {})"
    by code_simp
  moreover have
    "set_attempts [(- 4, True), (12, False), (- 4, True), (12, False), (- 4, True), (12, False)]
       (board_2x2 (replicate 16 False) (replicate 16 0) {}) =
     board_2x2 (replicate 16 False) ((replicate 16 0)[9 := 3]) {- 7, - 5, - 4, 11, 12}"
    by code_simp
  ultimately show ?thesis
    using generation_border_slot_alive generation_births_on_dead_board
    by (simp add: update_def)
qed

theorem dead_board_not_quiescent_witness:
  "iterates [- 3, - 4, - 5] {- 5, - 4, - 3} \<and>
   update [[- 3, - 4, - 5]]
     (board_1x1 [False, False, False, False, False, True, False, False, False]
        [0, 0, 0, 0, 1, 0, 1, 0, 0] {- 5, - 4, - 3}) =
     Inr (board_1x1 (replicate 9 False) (replicate 9 0) {- 5, - 4, - 3}) \<and>
   iterates [12, 11, - 4, - 5, - 7] {- 7, - 5, - 4, 11, 12} \<and>
   update [[12, 11, - 4, - 5, - 7]]
     (board_2x2 (replicate 16 False) ((replicate 16 0)[9 := 3]) {- 7, - 5, - 4, 11, 12}) =
     Inr (board_2x2 ((replicate 16 False)[9 := True])
            ((replicate 16 0)[5 := 1, 6 := 1, 9 := 3, 10 := 1, 12 := 1])
            {- 11, - 10, - 7, - 6, - 4})"
proof -
  have a: "iterates [- 3, - 4, - 5] {- 5, - 4, - 3}"
    by (auto simp: iterates_def)
  have b: "iterates [12, 11, - 4, - 5, - 7] {- 7, - 5, - 4, 11, 12}"
    by (auto simp: iterates_def)
  from dead_board_not_quiescent a b show ?thesis
    by blast
qed

text \<open>
  C9 (in-range mutation safety). For \<open>w > 0\<close>, \<open>h > 0\<close>, a reachable state and a
  logical coordinate \<open>0 \<le> x < w\<close>, \<open>0 \<le> y < h\<close>: \<open>cell(x, y)\<close> is an interior slot
  whose \<open>in_bounds\<close> entry is true; the three arrays have \<open>(w + 2) * (h + 2)\<close>
  entries; every subscript that \<open>set(cell(x, y), v)\<close> evaluates, \<open>p\<close> and \<open>n + p\<close> for
  \<open>n\<close> in \<open>neighbourhood\<close>, lies in \<open>[0, (w + 2) * (h + 2))\<close>, so none is negative
  (no wrap-around) and none raises; and the call returns.
\<close>

theorem in_range_set_is_safe:
  assumes "0 < w" and "0 < h" and "reachable w h g"
    and "0 \<le> x" and "x < w" and "0 \<le> y" and "y < h"
  shows "interior w h (cell g x y) \<and> in_bounds g ! nat (cell g x y) \<and>
         int (length (live g)) = cells w h \<and> int (length (in_bounds g)) = cells w h \<and>
         int (length (neighbours g)) = cells w h \<and>
         (\<forall>k\<in>set (subscripts (cell g x y) g). 0 \<le> k \<and> k < cells w h) \<and>
         (\<exists>g'. set_cell (cell g x y) v g = Inr g')"
proof -
  have wf: "consistent w h g" using reachable_consistent assms(1,2,3) by blast
  then have c: "cell g x y = (w + 2) * (y + 1) + x + 1"
    by (simp add: cell_def consistent_def)
  have i: "interior w h (cell g x y)"
    unfolding c using assms(4-7) by (rule interior_cell)
  have m: "masked w h (cell g x y)" using interior_masked [OF assms(1,2) i] .
  have v: "0 \<le> cell g x y" "cell g x y < cells w h"
    using masked_valid [OF assms(1,2) m] by simp_all
  have pos: "0 \<le> cells w h" using v by simp
  have "in_bounds g ! nat (cell g x y)"
    using consistent_in_bounds [OF wf v] m by simp
  moreover have "int (length (live g)) = cells w h" "int (length (in_bounds g)) = cells w h"
    "int (length (neighbours g)) = cells w h"
    using wf pos by (simp_all add: consistent_def)
  ultimately show ?thesis
    using i set_interior_returns [OF assms(1,2) wf i, of v] by simp
qed

theorem in_range_set_is_safe_witness:
  "reachable 2 2
     (board_2x2 ((replicate 16 False)[5 := True]) ((replicate 16 0)[6 := 1, 9 := 1, 10 := 1])
        {5, 6, 9, 10}) \<and>
   cell (board_2x2 ((replicate 16 False)[5 := True]) ((replicate 16 0)[6 := 1, 9 := 1, 10 := 1])
        {5, 6, 9, 10}) 1 1 = 10 \<and>
   interior 2 2 10 \<and>
   subscripts 10 (board_2x2 ((replicate 16 False)[5 := True]) ((replicate 16 0)[6 := 1, 9 := 1, 10 := 1])
        {5, 6, 9, 10}) = [10, 5, 9, 13, 6, 14, 7, 11, 15] \<and>
   (\<exists>g'. set_cell 10 True
      (board_2x2 ((replicate 16 False)[5 := True]) ((replicate 16 0)[6 := 1, 9 := 1, 10 := 1])
        {5, 6, 9, 10}) = Inr g')"
    (is "reachable 2 2 ?g \<and> _")
proof -
  have "Life 2 2 = Inr (board_2x2 (replicate 16 False) (replicate 16 0) {})"
    by code_simp
  moreover have "set_cell 5 True (board_2x2 (replicate 16 False) (replicate 16 0) {}) = Inr ?g"
    by code_simp
  ultimately have r: "reachable 2 2 ?g"
    using constructed by_set by blast
  have c: "cell ?g 1 1 = 10" by (simp add: cell_def board_2x2_def)
  have s: "subscripts 10 ?g = [10, 5, 9, 13, 6, 14, 7, 11, 15]"
    by (simp add: subscripts_def board_2x2_def)
  from in_range_set_is_safe [of 2 2 ?g 1 1 True, OF _ _ r] r c s show ?thesis
    by simp
qed

text \<open>
  C10 (order independence of a generation), as stated, fails. A cell index may be
  negative (\<open>set(-13, True)\<close> on a 3 by 3 board sets slot 12), and \<open>set\<close> puts the
  subscripts it was given into \<open>needs_update\<close>, so the dirty set can hold two indices
  of one slot. After \<open>Life(3, 3)\<close>, \<open>set(-13, True)\<close>, \<open>set(11, True)\<close> it holds
  \<open>-13\<close> and \<open>12\<close>: the generation that visits \<open>-13\<close> first and the one that visits
  \<open>12\<close> first produce the same \<open>live\<close> and \<open>neighbours\<close> and different dirty sets.
\<close>

theorem generation_order_counterexample:
  "rbind (Life 3 3) (set_calls [(- 13, True), (11, True)]) =
     Inr (board_3x3 ((replicate 25 False)[11 := True, 12 := True])
            [0, 0, 0, 0, 0, 0, 2, 2, 1, 0, 0, 1, 1, 1, 0, 0, 2, 2, 1, 0, 0, 0, 0, 0, 0]
            {- 19, - 18, - 17, - 14, - 13, - 12, - 9, - 8, - 7, 6, 7, 11, 12, 16, 17}) \<and>
   iterates [- 13, 12, - 19, - 18, - 17, - 14, - 12, - 9, - 8, - 7, 6, 7, 11, 16, 17]
     {- 19, - 18, - 17, - 14, - 13, - 12, - 9, - 8, - 7, 6, 7, 11, 12, 16, 17} \<and>
   iterates [12, - 13, - 19, - 18, - 17, - 14, - 12, - 9, - 8, - 7, 6, 7, 11, 16, 17]
     {- 19, - 18, - 17, - 14, - 13, - 12, - 9, - 8, - 7, 6, 7, 11, 12, 16, 17} \<and>
   update_gen [- 13, 12, - 19, - 18, - 17, - 14, - 12, - 9, - 8, - 7, 6, 7, 11, 16, 17]
     (board_3x3 ((replicate 25 False)[11 := True, 12 := True])
            [0, 0, 0, 0, 0, 0, 2, 2, 1, 0, 0, 1, 1, 1, 0, 0, 2, 2, 1, 0, 0, 0, 0, 0, 0]
            {- 19, - 18, - 17, - 14, - 13, - 12, - 9, - 8, - 7, 6, 7, 11, 12, 16, 17}) =
     Inr (board_3x3 (replicate 25 False) (replicate 25 0)
            {- 19, - 18, - 17, - 14, - 13, - 12, - 9, - 8, - 7}) \<and>
   update_gen [12, - 13, - 19, - 18, - 17, - 14, - 12, - 9, - 8, - 7, 6, 7, 11, 16, 17]
     (board_3x3 ((replicate 25 False)[11 := True, 12 := True])
            [0, 0, 0, 0, 0, 0, 2, 2, 1, 0, 0, 1, 1, 1, 0, 0, 2, 2, 1, 0, 0, 0, 0, 0, 0]
            {- 19, - 18, - 17, - 14, - 13, - 12, - 9, - 8, - 7, 6, 7, 11, 12, 16, 17}) =
     Inr (board_3x3 (replicate 25 False) (replicate 25 0)
            {- 19, - 18, - 14, - 13, - 9, - 8, 6, 7, 8, 11, 12, 13, 16, 17, 18}) \<and>
   {- 19, - 18, - 17, - 14, - 13, - 12, - 9, - 8, - 7} \<noteq>
   {- 19, - 18, - 14, - 13, - 9, - 8, 6, 7, 8, 11, 12, 13, 16, 17, 18 :: int}"
  by code_simp

text \<open>
  C10 as amended: in every state in which no two indices of the dirty set name the same
  slot of \<open>live\<close> (as when all of them are storage indices in
  \<open>[0, (width + 2) * (height + 2))\<close>), one generation gives the same result, the same
  \<open>live\<close>, \<open>neighbours\<close> and \<open>needs_update\<close> or the same exception, for any two iteration
  orders of the dirty set.
\<close>

theorem generation_order_independent:
  assumes "iterates o1 (needs_update g)" and "iterates o2 (needs_update g)"
    and "inj_on (slot (length (live g))) (needs_update g)"
  shows "update_gen o1 g = update_gen o2 g"
  using assms by (rule update_gen_order)

theorem generation_order_independent_witness:
  "rbind (Life 3 3) (set_calls [(12, True), (11, True)]) =
     Inr (board_3x3 ((replicate 25 False)[11 := True, 12 := True])
        [0, 0, 0, 0, 0, 0, 2, 2, 1, 0, 0, 1, 1, 1, 0, 0, 2, 2, 1, 0, 0, 0, 0, 0, 0]
        {6, 7, 8, 11, 12, 13, 16, 17, 18}) \<and>
   iterates [6, 7, 8, 11, 12, 13, 16, 17, 18] {6, 7, 8, 11, 12, 13, 16, 17, 18} \<and>
   iterates [18, 17, 16, 13, 12, 11, 8, 7, 6] {6, 7, 8, 11, 12, 13, 16, 17, 18} \<and>
   update_gen [6, 7, 8, 11, 12, 13, 16, 17, 18]
     (board_3x3 ((replicate 25 False)[11 := True, 12 := True])
        [0, 0, 0, 0, 0, 0, 2, 2, 1, 0, 0, 1, 1, 1, 0, 0, 2, 2, 1, 0, 0, 0, 0, 0, 0]
        {6, 7, 8, 11, 12, 13, 16, 17, 18}) =
   update_gen [18, 17, 16, 13, 12, 11, 8, 7, 6]
     (board_3x3 ((replicate 25 False)[11 := True, 12 := True])
        [0, 0, 0, 0, 0, 0, 2, 2, 1, 0, 0, 1, 1, 1, 0, 0, 2, 2, 1, 0, 0, 0, 0, 0, 0]
        {6, 7, 8, 11, 12, 13, 16, 17, 18})"
    (is "?run = _ \<and> iterates ?o1 ?S \<and> iterates ?o2 ?S \<and> update_gen ?o1 ?g = _")
proof -
  have n: "needs_update ?g = ?S" by (simp add: board_3x3_def)
  have a: "iterates ?o1 (needs_update ?g)" unfolding n by (simp add: iterates_def)
  have b: "iterates ?o2 (needs_update ?g)" unfolding n by (auto simp: iterates_def)
  have c: "inj_on (slot (length (live ?g))) (needs_update ?g)"
    unfolding n by (simp add: board_3x3_def slot_def)
  have r: "?run = Inr ?g" by code_simp
  from generation_order_independent [OF a b c] a b r show ?thesis
    unfolding n by simp
qed

end
